theory Spec2Isabelle
  imports Main "HOL-Library.Word"
begin

section \<open>Data model\<close>

text \<open>
  The embedding follows \<^verbatim>\<open>cspec.c\<close> built with memory testing compiled in
  (\<^verbatim>\<open>malloc\<close> defined as \<^verbatim>\<open>cspec_malloc\<close>, so that
  \<^verbatim>\<open>_CSPEC_USE_MEMORY_TESTING_\<close> is set). The file-level \<^verbatim>\<open>static\<close> variables
  become the fields of one record that every function takes and returns.

  A \<^verbatim>\<open>csByte\<close> is an 8-bit word. A \<^verbatim>\<open>size_t\<close> is a natural number, with the
  64-bit wrap-around written out where a sum can exceed it. \<^verbatim>\<open>int\<close> counters are
  integers (signed overflow is undefined in C and is not modelled).

  An address is an integer: the byte offset from the start of the array
  \<^verbatim>\<open>_memory\<close>. The array occupies offsets \<open>0 ..< memory_size_full\<close>; any other
  integer stands for storage outside the array. A pointer is an address or \<open>None\<close>
  for \<^verbatim>\<open>NULL\<close>.

  A description is a \<^verbatim>\<open>const char*\<close> that the source compares by address and reads
  only to print it. It is modelled as that address: \<open>None\<close> for \<^verbatim>\<open>NULL\<close>, \<open>Some n\<close>
  for the string literal number \<open>n\<close> of the program. Literal \<open>0\<close> is \<^verbatim>\<open>"<root context>"\<close>,
  which the initialiser of the stack gives the root entry. Every use of the \<^verbatim>\<open>context\<close>
  macro passes a literal of its own, whose text starts with \<^verbatim>\<open>"context: "\<close> and holds the
  line number.
\<close>

type_synonym csByte = "8 word"
type_synonym addr = int
type_synonym pointer = "addr option"
type_synonym text_ptr = "nat option"

definition memory_size_fence :: nat where
  "memory_size_fence = 7"

definition memory_size_barrier :: nat where
  "memory_size_barrier = 16"

definition memory_size_max :: nat where
  "memory_size_max = 4096"

definition memory_size_full :: nat where
  "memory_size_full = memory_size_max + memory_size_barrier * 2"

text \<open>\<^verbatim>\<open>static csByte* memory = _memory + memory_size_barrier\<close>\<close>

definition memory :: addr where
  "memory = int memory_size_barrier"

text \<open>\<^verbatim>\<open>cspec_ctx_stack_size_max\<close>, the header's default.\<close>

definition cspec_ctx_stack_size_max :: int where
  "cspec_ctx_stack_size_max = 20"

text \<open>The fill bytes: \<^verbatim>\<open>'b'\<close>, \<^verbatim>\<open>'e'\<close>, \<^verbatim>\<open>'N'\<close>, \<^verbatim>\<open>'F'\<close>, \<^verbatim>\<open>'X'\<close> and \<^verbatim>\<open>0xFF\<close>.\<close>

definition chr_b :: csByte where "chr_b = 98"
definition chr_e :: csByte where "chr_e = 101"
definition chr_N :: csByte where "chr_N = 78"
definition chr_F :: csByte where "chr_F = 70"
definition chr_X :: csByte where "chr_X = 88"
definition byte_FF :: csByte where "byte_FF = 255"

datatype MallocFailLevel = M_NORMAL | M_WAS_EXPECTED | M_FAIL_ONCE | M_FAIL_ALWAYS

text \<open>The enumerators' values, for the comparisons \<^verbatim>\<open>memory_malloc_fail >= ...\<close>.\<close>

fun fail_level :: "MallocFailLevel \<Rightarrow> nat" where
  "fail_level M_NORMAL = 0"
| "fail_level M_WAS_EXPECTED = 1"
| "fail_level M_FAIL_ONCE = 2"
| "fail_level M_FAIL_ALWAYS = 3"

record MemoryRecord =
  size_r :: nat
  block :: addr
  is_free :: bool

record Context =
  desc :: text_ptr
  printed :: bool
  requested_context :: bool

text \<open>
  The messages the runtime hands to its output sink. Each constructor stands for one
  string literal of the source.
\<close>

datatype message =
    After_fence_broken        \<comment> \<open>after: detected buffer over/underrun\<close>
  | After_modified_after_free \<comment> \<open>after: memory modified after free\<close>
  | After_not_freed           \<comment> \<open>after: allocated memory not freed\<close>
  | After_primary_fence       \<comment> \<open>after: primary fence broken (large overrun)\<close>
  | After_mismatched          \<comment> \<open>after: mismatched malloc/free calls\<close>
  | After_fail_never_called   \<comment> \<open>memory error: after: malloc fail requested, but never called\<close>
  | Malloc_out_of_space       \<comment> \<open>malloc: ran out of test memory space!\<close>
  | Malloc_out_of_actual      \<comment> \<open>memory error: malloc: ran out of actual memory?\<close>
  | Malloc_preceding_fence    \<comment> \<open>malloc: preceeding fence broken\<close>
  | Free_out_of_bounds        \<comment> \<open>free: invalid pointer, out of bounds\<close>
  | Free_not_malloc_result    \<comment> \<open>free: invalid pointer, not malloc result\<close>
  | Free_already_freed        \<comment> \<open>free: pointer already freed\<close>
  | Free_broken_fence         \<comment> \<open>free: broken fence\<close>
  | Realloc_broken_fence      \<comment> \<open>realloc: broken fence\<close>
  | Realloc_malloc_failed     \<comment> \<open>realloc: malloc failed in realloc\<close>
  | Realloc_nothing_allocated \<comment> \<open>realloc: nothing previously allocated\<close>
  | Expected_fail_succeeded   \<comment> \<open>expected to fail, but succeeded instead\<close>
  | Expected_memory_none      \<comment> \<open>expected memory errors, but none were found\<close>
  | Too_many_contexts         \<comment> \<open>context error: Too many nested contexts\<close>
  | Stack_limit_hint          \<comment> \<open>Stack limit can be increased by defining ...\<close>
  | Memory_testing_disabled   \<comment> \<open>warning: expecting memory errors, but memory testing is disabled\<close>
  | Test_issue string         \<comment> \<open>the text a failing expectation of the test passes in\<close>

text \<open>
  What reached the error functions, in order. \<open>Error_mem m shown\<close> is a call of
  \<^verbatim>\<open>_cspec_error_mem\<close> during a test and \<open>Error_fn m shown\<close> a call of
  \<^verbatim>\<open>_cspec_error_fn\<close> during a test; \<open>shown\<close> tells whether the message was printed
  (it is not when the matching expectation flag is set). \<open>Warning l m\<close> is a line
  printed by \<^verbatim>\<open>_cspec_warn_fn\<close>, \<open>Plain m\<close> a line printed by \<^verbatim>\<open>output\<close>.
  The layout of the printed text (headers, colours, padding) is not modelled.
\<close>

datatype event =
    Error_mem message bool
  | Error_fn message bool
  | Warning int message
  | Plain message

record state =
  test_failed :: bool
  test_warned :: bool
  test_in_function :: bool
  test_in_progress :: bool
  test_expect_fail :: bool
  test_skip :: bool
  test_current_line :: int
  test_count :: int
  test_passed_count :: int
  test_warnings_count :: int
  param_line :: int
  param_no_expect_fail :: bool
  param_memory_test :: bool
  memory_arr :: "addr \<Rightarrow> csByte"
  memory_ptr :: nat
  memory_records :: "MemoryRecord option list option"
  memory_records_capacity :: nat
  memory_records_size :: nat
  memory_count_mallocs :: int
  memory_count_frees :: int
  memory_expect_error :: bool
  memory_error :: bool
  memory_malloc_fail :: MallocFailLevel
  memory_malloc_forced_failures :: int
  ctx_stack :: "Context list"
  ctx_stack_index :: int
  ctx_stack_top :: int
  events :: "event list"
  host_grants :: "nat \<Rightarrow> bool"

text \<open>
  \<open>memory_arr\<close> is the content of \<^verbatim>\<open>_memory\<close>. \<open>memory_records\<close> is the record table:
  \<open>None\<close> for a \<^verbatim>\<open>NULL\<close> table, otherwise the whole allocated array, of which the first
  \<open>memory_records_size\<close> entries count as in use. The real \<^verbatim>\<open>malloc\<close> and \<^verbatim>\<open>realloc\<close> do not
  initialise what they hand out: an entry of the table is \<open>None\<close> until the program
  writes it, and \<open>Some r\<close> from then on (also across the reset between two passes,
  which keeps the table).

  The real allocator is the environment: \<open>host_grants n\<close> tells whether it serves a
  request for a table of \<open>n\<close> records.
\<close>


section \<open>Helpers that replace the standard library\<close>

text \<open>
  \<^verbatim>\<open>while (n--) *(s++) = c;\<close> and \<^verbatim>\<open>while (n--) *(s++) = *(t++);\<close>
\<close>

fun cspec_memset :: "(addr \<Rightarrow> csByte) \<Rightarrow> addr \<Rightarrow> csByte \<Rightarrow> nat \<Rightarrow> (addr \<Rightarrow> csByte)" where
  "cspec_memset m s c 0 = m"
| "cspec_memset m s c (Suc n) = cspec_memset (m(s := c)) (s + 1) c n"

fun cspec_memcpy :: "(addr \<Rightarrow> csByte) \<Rightarrow> addr \<Rightarrow> addr \<Rightarrow> nat \<Rightarrow> (addr \<Rightarrow> csByte)" where
  "cspec_memcpy m s t 0 = m"
| "cspec_memcpy m s t (Suc n) = cspec_memcpy (m(s := m t)) (s + 1) (t + 1) n"

text \<open>
  Neither loop checks a bound, and neither do the loops of the allocator that read the
  fences. An access to \<open>n\<close> bytes at \<open>a\<close> stays inside \<^verbatim>\<open>_memory\<close> when \<open>in_array a n\<close>
  holds. An access that leaves the array is undefined in C and touches storage this
  model does not describe, and so is the use of a table entry that was never written
  (its value is indeterminate). The functions below stop with a fault where the source
  would do one of these:

  \<^item> \<open>Stray_write\<close>: a write outside \<^verbatim>\<open>_memory\<close>, or to an entry outside the table;
  \<^item> \<open>Stray_read\<close>: a read outside \<^verbatim>\<open>_memory\<close>;
  \<^item> \<open>Unwritten_entry\<close>: a read of a table entry that no statement has written, or of
    an entry outside the table;
  \<^item> \<open>Stale_pointer\<close>: a read through a pointer into a table that \<^verbatim>\<open>realloc\<close> has
    replaced since the pointer was taken;
  \<^item> \<open>Host_allocator\<close>: the call is handed to the real allocator, which is outside the
    sandbox and outside this model.
\<close>

definition in_array :: "addr \<Rightarrow> nat \<Rightarrow> bool" where
  "in_array a n \<longleftrightarrow> n = 0 \<or> (0 \<le> a \<and> a + int n \<le> int memory_size_full)"

datatype fault =
    Host_allocator
  | Stray_write
  | Stray_read
  | Unwritten_entry
  | Stale_pointer

text \<open>A statement of the code under test that stores one byte, as in \<^verbatim>\<open>p[5] = 0\<close>.\<close>

definition store_byte :: "state \<Rightarrow> addr \<Rightarrow> csByte \<Rightarrow> fault + state" where
  "store_byte s a v =
     (if \<not> in_array a 1 then Inl Stray_write
      else Inr (s\<lparr> memory_arr := (memory_arr s)(a := v) \<rparr>))"

section \<open>Error functions\<close>

text \<open>
  The C names that start with an underscore lose it here: \<open>cspec_error_mem\<close> is
  \<^verbatim>\<open>_cspec_error_mem\<close>, and so on. \<^verbatim>\<open>_cspec_error_mem\<close> also takes the record to print
  with the message; the printing reads the record's size and block address (and the bytes
  around the block, each only after comparing its address with the bounds of \<^verbatim>\<open>_memory\<close>).
  Every caller but one passes a record it has read before or a local one; the exception
  is \<^verbatim>\<open>cspec_malloc\<close>, where the read is written out.
\<close>

definition cspec_warn_fn :: "int \<Rightarrow> message \<Rightarrow> state \<Rightarrow> state" where
  "cspec_warn_fn line msg s =
     (if test_current_line s \<noteq> 0 \<and> test_current_line s > line then s
      else s\<lparr> events := events s @ [Warning line msg],
              test_warnings_count :=
                (if test_warned s then test_warnings_count s else test_warnings_count s + 1),
              test_warned := True \<rparr>)"

definition cspec_error_fn :: "message \<Rightarrow> state \<Rightarrow> state" where
  "cspec_error_fn msg s =
     (if test_in_progress s
      then s\<lparr> events := events s @ [Error_fn msg (\<not> test_expect_fail s)],
              test_failed := True \<rparr>
      else s)"

definition cspec_error_mem :: "message \<Rightarrow> state \<Rightarrow> state" where
  "cspec_error_mem msg s =
     (if test_in_progress s
      then s\<lparr> events := events s @ [Error_mem msg (\<not> memory_expect_error s)],
              memory_error := True \<rparr>
      else s)"

section \<open>Memory testing\<close>

text \<open>
  \<^verbatim>\<open>memory_check_fence\<close>: round \<open>i\<close> of the loop reads the byte \<open>i\<close> of the leading fence
  and, only when that is \<^verbatim>\<open>'b'\<close>, the byte \<open>i\<close> of the trailing fence; the first byte that
  differs ends the loop.
\<close>

fun check_fence_from :: "(addr \<Rightarrow> csByte) \<Rightarrow> MemoryRecord \<Rightarrow> nat \<Rightarrow> nat \<Rightarrow> fault + bool" where
  "check_fence_from m r i 0 = Inr True"
| "check_fence_from m r i (Suc k) =
     (if \<not> in_array (block r + int i) 1 then Inl Stray_read
      else if chr_b \<noteq> m (block r + int i) then Inr False
      else if \<not> in_array (block r + int i + int memory_size_fence + int (size_r r)) 1
      then Inl Stray_read
      else if chr_e \<noteq> m (block r + int i + int memory_size_fence + int (size_r r))
      then Inr False
      else check_fence_from m r (Suc i) k)"

definition memory_check_fence :: "(addr \<Rightarrow> csByte) \<Rightarrow> MemoryRecord \<Rightarrow> fault + bool" where
  "memory_check_fence m r = check_fence_from m r 0 memory_size_fence"

definition memory_record_compare :: "addr \<Rightarrow> MemoryRecord \<Rightarrow> int" where
  "memory_record_compare key r =
     (let record_block = block r + int memory_size_fence
      in if key > record_block then 1 else if key < record_block then - 1 else 0)"

text \<open>The entry \<open>i\<close> of a table, \<open>None\<close> also when the table has no such entry.\<close>

definition table_entry :: "MemoryRecord option list \<Rightarrow> nat \<Rightarrow> MemoryRecord option" where
  "table_entry arr i = (if i < length arr then arr ! i else None)"

text \<open>
  \<^verbatim>\<open>bsearch\<close> belongs to the C library, not to the repository. It is modelled as the
  usual binary search over the index range \<open>l ..< u\<close>, which hands the entry in the
  middle to \<^verbatim>\<open>memory_record_compare\<close>, and returns the index found with its entry.
\<close>

function bsearch :: "addr \<Rightarrow> MemoryRecord option list \<Rightarrow> nat \<Rightarrow> nat
    \<Rightarrow> fault + (nat \<times> MemoryRecord) option" where
  "bsearch key recs l u =
     (if l < u then
        (case table_entry recs ((l + u) div 2) of
           None \<Rightarrow> Inl Unwritten_entry
         | Some r \<Rightarrow>
             if memory_record_compare key r < 0 then bsearch key recs l ((l + u) div 2)
             else if memory_record_compare key r > 0 then bsearch key recs ((l + u) div 2 + 1) u
             else Inr (Some ((l + u) div 2, r)))
      else Inr None)"
  by pat_completeness auto
termination
  by (relation "measure (\<lambda>(key, recs, l, u). u - l)") auto

declare bsearch.simps [simp del]

text \<open>
  The table as a list (empty for a \<^verbatim>\<open>NULL\<close> table), and the entries that count as in
  use: those with an index below \<open>memory_records_size\<close>.
\<close>

definition the_table :: "state \<Rightarrow> MemoryRecord option list" where
  "the_table s = (case memory_records s of None \<Rightarrow> [] | Some arr \<Rightarrow> arr)"

definition records_in_use :: "state \<Rightarrow> MemoryRecord option list" where
  "records_in_use s = map (table_entry (the_table s)) [0 ..< memory_records_size s]"

definition memory_test_reset :: "bool \<Rightarrow> state \<Rightarrow> state" where
  "memory_test_reset enable s =
     (if \<not> enable then s\<lparr> memory_records := None \<rparr>
      else
        let s1 = s\<lparr> memory_expect_error := False,
                    memory_malloc_forced_failures := 0,
                    memory_malloc_fail := M_NORMAL,
                    memory_error := False,
                    memory_count_mallocs := 0,
                    memory_count_frees := 0,
                    memory_records_size := 0,
                    memory_ptr := 0 \<rparr>;
            s2 = (if memory_records s1 = None
                  then s1\<lparr> memory_records_size := 0,
                           memory_records_capacity := 16,
                           memory_records :=
                             (if host_grants s1 16 then Some (replicate 16 None)
                              else None) \<rparr>
                  else s1);
            m1 = cspec_memset (memory_arr s2) 0 byte_FF memory_size_barrier;
            m2 = cspec_memset m1 memory chr_X memory_size_max;
            m3 = cspec_memset m2 (int memory_size_barrier + int memory_size_max)
                   byte_FF memory_size_barrier
        in s2\<lparr> memory_arr := m3 \<rparr>)"

text \<open>
  \<^verbatim>\<open>memory_final_checks\<close>. The first loop takes every entry in use, checks its fences,
  and reads the whole payload of a freed one. What follows it (\<open>check_counts\<close>: the loop
  over the barriers, which stays inside the array, and the two tests of the counters)
  reads no record.
\<close>

definition check_record :: "MemoryRecord \<Rightarrow> state \<Rightarrow> fault + state" where
  "check_record r s =
     (case memory_check_fence (memory_arr s) r of
        Inl f \<Rightarrow> Inl f
      | Inr ok \<Rightarrow>
          let s1 = (if \<not> ok then cspec_error_mem After_fence_broken s else s)
          in if is_free r then
               (if \<not> in_array (block r + int memory_size_fence) (size_r r) then Inl Stray_read
                else Inr (fold (\<lambda>j t. if memory_arr t (block r + int memory_size_fence + int j)
                                           \<noteq> chr_F
                                        then cspec_error_mem After_modified_after_free t else t)
                            [0 ..< size_r r] s1))
             else Inr (cspec_error_mem After_not_freed s1))"

fun check_records :: "MemoryRecord option list \<Rightarrow> state \<Rightarrow> fault + state" where
  "check_records [] s = Inr s"
| "check_records (None # es) s = Inl Unwritten_entry"
| "check_records (Some r # es) s =
     (case check_record r s of Inl f \<Rightarrow> Inl f | Inr s1 \<Rightarrow> check_records es s1)"

definition check_barrier :: "nat \<Rightarrow> state \<Rightarrow> state" where
  "check_barrier i s =
     (if byte_FF \<noteq> memory_arr s (int i)
         \<or> byte_FF \<noteq> memory_arr s (int i + int memory_size_barrier + int memory_size_max)
      then cspec_error_mem After_primary_fence s else s)"

definition check_counts :: "state \<Rightarrow> state" where
  "check_counts s =
     (let s2 = fold check_barrier [0 ..< memory_size_barrier] s;
          s3 = (if memory_count_mallocs s2 \<noteq> memory_count_frees s2
                then cspec_error_mem After_mismatched s2 else s2)
      in if fail_level (memory_malloc_fail s3) \<ge> fail_level M_WAS_EXPECTED
            \<and> memory_malloc_forced_failures s3 = 0
         then cspec_error_fn After_fail_never_called s3 else s3)"

definition memory_final_checks :: "state \<Rightarrow> fault + state" where
  "memory_final_checks s =
     (case check_records (records_in_use s) s of
        Inl f \<Rightarrow> Inl f
      | Inr s1 \<Rightarrow> Inr (check_counts s1))"

text \<open>
  \<^verbatim>\<open>cspec_malloc\<close>. \<open>next\<close> is a \<^verbatim>\<open>size_t\<close> sum, taken modulo \<open>2 ^ 64\<close>. The new
  capacity \<^verbatim>\<open>(size_t)((float)capacity * 1.5f)\<close> is \<open>capacity * 3 div 2\<close> (exact for
  every capacity a 4096-byte arena can reach). The loop over the preceding fence
  starts at the \<^verbatim>\<open>size_t\<close> difference \<^verbatim>\<open>memory_ptr - memory_size_fence\<close>, which wraps
  to a huge value when \<open>memory_ptr < 7\<close>, so that the loop body never runs then; it ends
  at the first byte that is not \<^verbatim>\<open>'e'\<close>.

  The source takes the next entry of the table and counts it
  (\<^verbatim>\<open>&memory_records[memory_records_size++]\<close>) before it looks at the preceding fence.
  When that fence is broken it reports the error with the entry before the new one and
  returns: the new entry is counted and was not written.
\<close>

definition grow_records :: "state \<Rightarrow> state option" where
  "grow_records s =
     (if memory_records_size s \<ge> memory_records_capacity s then
        (let new_cap = memory_records_capacity s * 3 div 2
         in if \<not> host_grants s new_cap then None
            else Some (s\<lparr> memory_records :=
                            map_option (\<lambda>arr. take new_cap
                                (arr @ replicate (new_cap - length arr) None))
                              (memory_records s),
                          memory_records_capacity := new_cap \<rparr>))
      else Some s)"

fun fence_loop :: "(addr \<Rightarrow> csByte) \<Rightarrow> addr \<Rightarrow> nat \<Rightarrow> fault + bool" where
  "fence_loop m a 0 = Inr True"
| "fence_loop m a (Suc k) =
     (if \<not> in_array a 1 then Inl Stray_read
      else if m a \<noteq> chr_e then Inr False
      else fence_loop m (a + 1) k)"

definition preceding_fence_ok :: "state \<Rightarrow> fault + bool" where
  "preceding_fence_ok s =
     (if memory_ptr s = 0 \<or> memory_ptr s < memory_size_fence then Inr True
      else fence_loop (memory_arr s) (memory + int (memory_ptr s - memory_size_fence))
             memory_size_fence)"

definition cspec_malloc :: "state \<Rightarrow> nat \<Rightarrow> fault + state \<times> pointer" where
  "cspec_malloc s sz =
     (if memory_records s = None \<or> \<not> test_in_function s then Inl Host_allocator
      else if sz = 0 then Inr (s, None)
      else if fail_level (memory_malloc_fail s) \<ge> fail_level M_FAIL_ONCE then
        Inr (s\<lparr> memory_malloc_fail :=
                   (if memory_malloc_fail s = M_FAIL_ONCE then M_WAS_EXPECTED
                    else memory_malloc_fail s),
                 memory_malloc_forced_failures := memory_malloc_forced_failures s + 1 \<rparr>,
             None)
      else
        let next = (memory_ptr s + memory_size_fence * 2 + sz) mod 2 ^ 64
        in if next \<ge> memory_size_max - memory_size_fence * 2 then
             Inr (cspec_error_mem Malloc_out_of_space (s\<lparr> memory_expect_error := False \<rparr>),
                  None)
           else
             case grow_records (s\<lparr> memory_count_mallocs := memory_count_mallocs s + 1 \<rparr>) of
               None \<Rightarrow>
                 Inr (s\<lparr> memory_count_mallocs := memory_count_mallocs s + 1,
                          memory_expect_error := False,
                          events := events s @ [Plain Malloc_out_of_actual] \<rparr>, None)
             | Some s1 \<Rightarrow>
                 let idx = memory_records_size s1;
                     s2 = s1\<lparr> memory_records_size := idx + 1 \<rparr>
                 in case preceding_fence_ok s2 of
                      Inl f \<Rightarrow> Inl f
                    | Inr False \<Rightarrow>
                        if test_in_progress s2 \<and> \<not> memory_expect_error s2
                           \<and> (idx = 0 \<or> table_entry (the_table s2) (idx - 1) = None)
                        then Inl Unwritten_entry
                        else Inr (cspec_error_mem Malloc_preceding_fence s2, None)
                    | Inr True \<Rightarrow>
                        let b = memory + int (memory_ptr s2);
                            r = \<lparr> size_r = sz, block = b, is_free = False \<rparr>
                        in if \<not> idx < length (the_table s2)
                              \<or> \<not> in_array b (memory_size_fence * 2 + sz)
                           then Inl Stray_write
                           else
                             let m1 = cspec_memset (memory_arr s2) b chr_b memory_size_fence;
                                 m2 = cspec_memset m1 (b + int memory_size_fence) chr_N sz;
                                 m3 = cspec_memset m2 (b + int memory_size_fence + int sz)
                                        chr_e memory_size_fence
                             in Inr (s2\<lparr> memory_records :=
                                            Some ((the_table s2)[idx := Some r]),
                                          memory_arr := m3,
                                          memory_ptr := next \<rparr>,
                                     Some (b + int memory_size_fence)))"

text \<open>
  \<^verbatim>\<open>cspec_free\<close>. The double-free and broken-fence branches report and fall through
  to the statements that free the record.
\<close>

definition cspec_free :: "state \<Rightarrow> pointer \<Rightarrow> fault + state" where
  "cspec_free s p =
     (if memory_records s = None \<or> \<not> test_in_function s then Inl Host_allocator
      else case p of
        None \<Rightarrow> Inr s
      | Some mem \<Rightarrow>
          if mem < memory \<or> mem \<ge> memory + int memory_size_max then
            Inr (cspec_error_mem Free_out_of_bounds s)
          else
            (case bsearch mem (the_table s) 0 (memory_records_size s) of
              Inl f \<Rightarrow> Inl f
            | Inr None \<Rightarrow> Inr (cspec_error_mem Free_not_malloc_result s)
            | Inr (Some (i, r)) \<Rightarrow>
                let s1 = (if is_free r then cspec_error_mem Free_already_freed s else s)
                in (case memory_check_fence (memory_arr s1) r of
                      Inl f \<Rightarrow> Inl f
                    | Inr ok \<Rightarrow>
                        let s2 = (if \<not> ok then cspec_error_mem Free_broken_fence s1 else s1)
                        in if \<not> in_array (block r + int memory_size_fence) (size_r r)
                           then Inl Stray_write
                           else Inr (s2\<lparr> memory_arr :=
                                            cspec_memset (memory_arr s2)
                                              (block r + int memory_size_fence) chr_F (size_r r),
                                          memory_records :=
                                            Some ((the_table s2)[i := Some (r\<lparr> is_free := True \<rparr>)]),
                                          memory_count_frees := memory_count_frees s2 + 1 \<rparr>))))"

text \<open>
  \<^verbatim>\<open>cspec_realloc\<close>. \<^verbatim>\<open>record\<close> points at the last entry in use; the armed failure is
  looked at before the entry is read. In the branch that allocates a new block the
  source keeps that pointer across the call of \<^verbatim>\<open>cspec_malloc\<close> and reads the record
  through it afterwards. When the call has grown the table, \<^verbatim>\<open>realloc\<close> has replaced the
  array the pointer points into; otherwise the entry is the one with the same index.
  \<^verbatim>\<open>memory_ptr\<close> is set from a pointer difference, converted to \<^verbatim>\<open>size_t\<close>.
\<close>

definition forced_failure :: "state \<Rightarrow> state" where
  "forced_failure s =
     s\<lparr> memory_malloc_fail :=
          (if memory_malloc_fail s = M_FAIL_ONCE then M_WAS_EXPECTED else memory_malloc_fail s),
        memory_malloc_forced_failures := memory_malloc_forced_failures s + 1 \<rparr>"

definition realloc_in_place :: "state \<Rightarrow> nat \<Rightarrow> MemoryRecord \<Rightarrow> nat \<Rightarrow> fault + state \<times> pointer" where
  "realloc_in_place s idx r nsize =
     (let block_start = block r + int memory_size_fence;
          old = size_r r
      in if nsize > old then
           (if \<not> in_array (block_start + int nsize) memory_size_fence
               \<or> \<not> in_array (block_start + int old) (nsize - old)
            then Inl Stray_write
            else
              let m1 = cspec_memset (memory_arr s) (block_start + int nsize) chr_e memory_size_fence;
                  m2 = cspec_memset m1 (block_start + int old) chr_N (nsize - old)
              in Inr (s\<lparr> memory_arr := m2,
                          memory_records :=
                            Some ((the_table s)[idx := Some (r\<lparr> size_r := nsize \<rparr>)]),
                          memory_ptr :=
                            nat ((block_start + int nsize + int memory_size_fence - memory)
                                 mod 2 ^ 64) \<rparr>,
                      Some (block r + int memory_size_fence)))
         else
           (if \<not> in_array (block_start + int nsize) memory_size_fence
               \<or> \<not> in_array (block_start + int nsize + int memory_size_fence) (old - nsize)
            then Inl Stray_write
            else
              let m1 = cspec_memset (memory_arr s) (block_start + int nsize) chr_e memory_size_fence;
                  m2 = cspec_memset m1 (block_start + int nsize + int memory_size_fence)
                         chr_X (old - nsize)
              in Inr (s\<lparr> memory_arr := m2,
                          memory_records :=
                            Some ((the_table s)[idx := Some (r\<lparr> size_r := nsize \<rparr>)]),
                          memory_ptr :=
                            nat ((block_start + int nsize + int memory_size_fence - memory)
                                 mod 2 ^ 64) \<rparr>,
                      Some (block r + int memory_size_fence))))"

definition realloc_move :: "state \<Rightarrow> nat \<Rightarrow> nat \<Rightarrow> fault + state \<times> pointer" where
  "realloc_move s idx nsize =
     (case cspec_malloc s nsize of
        Inl f \<Rightarrow> Inl f
      | Inr (s1, None) \<Rightarrow> Inr (cspec_error_mem Realloc_malloc_failed s1, None)
      | Inr (s1, Some ret) \<Rightarrow>
          if memory_records_capacity s1 \<noteq> memory_records_capacity s then Inl Stale_pointer
          else
          (case table_entry (the_table s1) idx of
             None \<Rightarrow> Inl Unwritten_entry
           | Some r \<Rightarrow>
               if \<not> in_array (block r) (size_r r + memory_size_fence * 2) then Inl Stray_read
               else if \<not> in_array ret (size_r r + memory_size_fence * 2) then Inl Stray_write
               else
                 (case cspec_free
                         (s1\<lparr> memory_arr :=
                                cspec_memcpy (memory_arr s1) ret (block r)
                                  (size_r r + memory_size_fence * 2) \<rparr>)
                         (Some (block r + int memory_size_fence)) of
                    Inl f \<Rightarrow> Inl f
                  | Inr s3 \<Rightarrow> Inr (s3, Some ret))))"

definition cspec_realloc :: "state \<Rightarrow> pointer \<Rightarrow> nat \<Rightarrow> fault + state \<times> pointer" where
  "cspec_realloc s p nsize =
     (if memory_records s = None \<or> \<not> test_in_function s then Inl Host_allocator
      else case p of
        None \<Rightarrow> cspec_malloc s nsize
      | Some mem \<Rightarrow>
          if memory_records_size s \<noteq> 0 then
            (let idx = memory_records_size s - 1
             in if fail_level (memory_malloc_fail s) \<ge> fail_level M_FAIL_ONCE then
                  Inr (forced_failure s, None)
                else
                  (case table_entry (the_table s) idx of
                     None \<Rightarrow> Inl Unwritten_entry
                   | Some r \<Rightarrow>
                       if block r + int memory_size_fence = mem then
                         (case memory_check_fence (memory_arr s) r of
                            Inl f \<Rightarrow> Inl f
                          | Inr ok \<Rightarrow>
                              if \<not> ok then Inr (cspec_error_mem Realloc_broken_fence s, None)
                              else if nsize = size_r r then Inr (s, Some mem)
                              else realloc_in_place s idx r nsize)
                       else realloc_move s idx nsize))
          else cspec_malloc (cspec_error_mem Realloc_nothing_allocated s) nsize)"

section \<open>Test contexts\<close>

text \<open>
  \<^verbatim>\<open>assert\<close> expands to nothing (the header defines it empty unless the including file
  has defined it), so the assertions of the source do not appear.
\<close>

definition root_desc :: text_ptr where
  "root_desc = Some 0"

definition root_context :: Context where
  "root_context = \<lparr> desc = root_desc, printed = False, requested_context = False \<rparr>"

definition cspec_context_begin :: "int \<Rightarrow> text_ptr \<Rightarrow> state \<Rightarrow> state \<times> bool" where
  "cspec_context_begin line d s =
     (if test_in_progress s then (s, False)
      else if ctx_stack_index s < ctx_stack_top s
              \<and> desc (ctx_stack s ! nat (ctx_stack_index s + 1)) = d
      then (s\<lparr> ctx_stack_index := ctx_stack_index s + 1 \<rparr>, True)
      else if desc (ctx_stack s ! nat (ctx_stack_index s)) = d then (s, True)
      else if test_current_line s > line then (s, False)
      else
        let is_requested = (line = param_line s);
            s1 = (if is_requested then s\<lparr> param_line := 0 \<rparr> else s);
            s2 = s1\<lparr> test_current_line := line \<rparr>
        in if ctx_stack_top s2 + 1 \<ge> cspec_ctx_stack_size_max then
             (cspec_warn_fn line Stack_limit_hint (cspec_warn_fn line Too_many_contexts s2),
              False)
           else
             let t = ctx_stack_top s2 + 1
             in (s2\<lparr> ctx_stack_top := t,
                     ctx_stack_index := t,
                     ctx_stack := (ctx_stack s2)
                       [nat t := \<lparr> desc = d, printed = False,
                                   requested_context = is_requested \<rparr>] \<rparr>,
                 True))"

definition cspec_context_end :: "int \<Rightarrow> state \<Rightarrow> state \<times> bool" where
  "cspec_context_end line s =
     (if test_in_progress s then (s, False)
      else
        let s1 = s\<lparr> test_current_line := line + 1 \<rparr>;
            s2 = (if requested_context (ctx_stack s1 ! nat (ctx_stack_top s1))
                  then s1\<lparr> param_line := - 1 \<rparr> else s1)
        in (s2\<lparr> ctx_stack_top := ctx_stack_top s2 - 1,
                ctx_stack_index := ctx_stack_top s2 - 1 \<rparr>, True))"

definition context_clear_stack :: "state \<Rightarrow> state" where
  "context_clear_stack s = s\<lparr> ctx_stack_top := 0, ctx_stack_index := 0 \<rparr>"

section \<open>Test begin and end, directives\<close>

text \<open>
  \<^verbatim>\<open>_cspec_begin\<close> also stores the description and prints a header in some modes; both
  only concern the output and are left out.
\<close>

definition cspec_begin :: "int \<Rightarrow> state \<Rightarrow> state \<times> bool" where
  "cspec_begin line s =
     (if test_in_progress s then (s, False)
      else if test_current_line s \<ge> line then (s, False)
      else
        let s1 = s\<lparr> test_current_line := line \<rparr>
        in if (param_line s1 = 0 \<or> param_line s1 = line) \<and> \<not> test_skip s1
           then (s1\<lparr> test_in_progress := True \<rparr>, True)
           else (s1\<lparr> test_in_progress := False \<rparr>, False))"

text \<open>
  The part of \<^verbatim>\<open>_cspec_end\<close> before the decision: the final memory checks, run when
  the test has not failed and memory testing is on, and the count of tests run.
\<close>

definition end_checks :: "state \<Rightarrow> fault + state" where
  "end_checks s =
     (case (if \<not> test_failed s \<and> param_memory_test s then memory_final_checks s else Inr s) of
        Inl f \<Rightarrow> Inl f
      | Inr s1 \<Rightarrow> Inr (s1\<lparr> test_count := test_count s1 + 1 \<rparr>))"

text \<open>
  The condition \<^verbatim>\<open>!test_failed ^ test_expect_fail && !memory_error ^ memory_expect_error\<close>:
  \<^verbatim>\<open>!\<close> binds tighter than \<^verbatim>\<open>^\<close>, and \<^verbatim>\<open>^\<close> tighter than \<^verbatim>\<open>&&\<close>; on the values 0 and 1
  the exclusive or is inequality.
\<close>

definition end_passes :: "state \<Rightarrow> bool" where
  "end_passes s \<longleftrightarrow>
     ((\<not> test_failed s) \<noteq> test_expect_fail s) \<and> ((\<not> memory_error s) \<noteq> memory_expect_error s)"

definition cspec_end :: "state \<Rightarrow> fault + state \<times> bool" where
  "cspec_end s =
     (if \<not> test_in_progress s then Inr (s, False)
      else
        case end_checks s of
          Inl f \<Rightarrow> Inl f
        | Inr s2 \<Rightarrow>
            let s3 = (if end_passes s2
                      then s2\<lparr> test_passed_count := test_passed_count s2 + 1 \<rparr>
                      else
                        let s4 = (if test_expect_fail s2
                                  then cspec_error_fn Expected_fail_succeeded
                                         (s2\<lparr> test_expect_fail := False \<rparr>)
                                  else s2)
                        in if memory_expect_error s4
                           then cspec_error_fn Expected_memory_none s4 else s4)
            in Inr (s3\<lparr> test_in_progress := False \<rparr>, True))"

definition cspec_expect_to_fail :: "state \<Rightarrow> state \<times> bool" where
  "cspec_expect_to_fail s =
     ((if \<not> param_no_expect_fail s then s\<lparr> test_expect_fail := True \<rparr> else s), True)"

text \<open>The warning is given the line \<^verbatim>\<open>0xFFFFFFFF\<close>, which is \<open>- 1\<close> as a 32-bit \<^verbatim>\<open>int\<close>.\<close>

definition memory_directive_warning :: "state \<Rightarrow> state \<times> bool" where
  "memory_directive_warning s =
     (if \<not> param_memory_test s
      then ((cspec_warn_fn (- 1) Memory_testing_disabled s)\<lparr> test_expect_fail := True \<rparr>, True)
      else (s, False))"


definition cspec_memory_malloc_null :: "bool \<Rightarrow> state \<Rightarrow> state \<times> bool" where
  "cspec_memory_malloc_null only_once s =
     (case memory_directive_warning s of
        (s1, True) \<Rightarrow> (s1\<lparr> test_skip := True \<rparr>, \<not> test_in_progress s1)
      | (s1, False) \<Rightarrow>
          (s1\<lparr> memory_malloc_fail := (if only_once then M_FAIL_ONCE else M_FAIL_ALWAYS) \<rparr>,
           True))"

section \<open>Test runners\<close>

definition before_fn :: "state \<Rightarrow> state" where
  "before_fn s = s\<lparr> test_current_line := 0 \<rparr>"

definition before_pass :: "state \<Rightarrow> state" where
  "before_pass s =
     (let s1 = s\<lparr> ctx_stack_index := 0, test_expect_fail := False, test_skip := False \<rparr>;
          s2 = memory_test_reset (param_memory_test s1) s1
      in s2\<lparr> test_failed := False, test_warned := False \<rparr>)"

text \<open>
  A test group is a C function whose body is written with the macros of the header. The
  macro \<^verbatim>\<open>_test\<close> is a \<^verbatim>\<open>for\<close> loop that calls \<^verbatim>\<open>_cspec_begin\<close> with its own line once and
  runs its block when the call answers true; \<^verbatim>\<open>_context\<close> is a \<^verbatim>\<open>for\<close> loop that calls
  \<^verbatim>\<open>_cspec_context_begin\<close> with its own line and description, runs its block when the first
  call answers true, calls \<^verbatim>\<open>_cspec_context_begin\<close> a second time after the block, and, when
  that answers true, calls \<^verbatim>\<open>_cspec_context_end\<close> and returns from the group function if
  it answers true. The body of a group is therefore a list of items: a test with its line
  and block, a context with its line, description and items, or code between the blocks.
  A block is a function on the state that also tells whether it returned from the group
  function (as a failing expectation does), or a fault.
\<close>

datatype item =
    Test int "state \<Rightarrow> fault + state \<times> bool"
  | Setup "state \<Rightarrow> fault + state \<times> bool"
  | Context int text_ptr "item list"

fun exec_items :: "item list \<Rightarrow> state \<Rightarrow> fault + state \<times> bool" where
  "exec_items [] s = Inr (s, False)"
| "exec_items (Test line body # its) s =
     (case cspec_begin line s of
        (s1, ok) \<Rightarrow>
          if ok then
            (case body s1 of
               Inl f \<Rightarrow> Inl f
             | Inr (s2, ret) \<Rightarrow> if ret then Inr (s2, True) else exec_items its s2)
          else exec_items its s1)"
| "exec_items (Setup f # its) s =
     (case f s of
        Inl e \<Rightarrow> Inl e
      | Inr (s1, ret) \<Rightarrow> if ret then Inr (s1, True) else exec_items its s1)"
| "exec_items (Context line d sub # its) s =
     (case cspec_context_begin line d s of
        (s1, ok1) \<Rightarrow>
          if \<not> ok1 then exec_items its s1
          else
            (case exec_items sub s1 of
               Inl f \<Rightarrow> Inl f
             | Inr (s2, ret) \<Rightarrow>
                 if ret then Inr (s2, True)
                 else
                   (case cspec_context_begin line d s2 of
                      (s3, ok2) \<Rightarrow>
                        if \<not> ok2 then exec_items its s3
                        else
                          (case cspec_context_end line s3 of
                             (s4, ok3) \<Rightarrow> if ok3 then Inr (s4, True) else exec_items its s4))))"

text \<open>
  One turn of the loop of \<^verbatim>\<open>process_function\<close> up to its exit test, and the loop itself,
  which leaves when no test is in progress and the line is the one the pass started with,
  and otherwise ends the test and runs the group function again.
\<close>

definition run_pass :: "item list \<Rightarrow> state \<Rightarrow> fault + state" where
  "run_pass body s =
     (case exec_items body ((before_pass s)\<lparr> test_in_function := True \<rparr>) of
        Inl f \<Rightarrow> Inl f
      | Inr (s1, ret) \<Rightarrow> Inr (s1\<lparr> test_in_function := False \<rparr>))"

partial_function (option) passes :: "item list \<Rightarrow> state \<Rightarrow> (fault + state) option" where
  "passes body s =
     (case run_pass body s of
        Inl f \<Rightarrow> Some (Inl f)
      | Inr r \<Rightarrow>
          if \<not> test_in_progress r \<and> test_current_line (before_pass s) = test_current_line r
          then Some (Inr r)
          else
            (case cspec_end r of
               Inl f \<Rightarrow> Some (Inl f)
             | Inr (t, b) \<Rightarrow> passes body t))"

definition process_function :: "item list \<Rightarrow> state \<Rightarrow> (fault + state) option" where
  "process_function body s =
     (case passes body (before_fn s) of
        None \<Rightarrow> None
      | Some (Inl f) \<Rightarrow> Some (Inl f)
      | Some (Inr r) \<Rightarrow> Some (Inr (context_clear_stack r)))"

section \<open>Reference states and relations between states\<close>

text \<open>
  The record table is well formed when it has as many entries as
  \<^verbatim>\<open>memory_records_capacity\<close> says, and at least one.

  \<open>frame s t\<close>: \<open>t\<close> differs from \<open>s\<close> at most in the events and in the two failure
  flags, and no flag was cleared. \<open>mem_frame\<close> is the same for the events and the
  memory flag alone.
\<close>

definition table_ok :: "state \<Rightarrow> bool" where
  "table_ok s \<longleftrightarrow>
     (case memory_records s of
        None \<Rightarrow> True
      | Some arr \<Rightarrow> length arr = memory_records_capacity s \<and> 0 < memory_records_capacity s)"

definition frame :: "state \<Rightarrow> state \<Rightarrow> bool" where
  "frame s t \<longleftrightarrow>
     t\<lparr> events := [], memory_error := False, test_failed := False \<rparr>
       = s\<lparr> events := [], memory_error := False, test_failed := False \<rparr>
     \<and> (memory_error s \<longrightarrow> memory_error t) \<and> (test_failed s \<longrightarrow> test_failed t)"

definition mem_frame :: "state \<Rightarrow> state \<Rightarrow> bool" where
  "mem_frame s t \<longleftrightarrow>
     t\<lparr> events := [], memory_error := False \<rparr> = s\<lparr> events := [], memory_error := False \<rparr>"

text \<open>
  \<open>unmet_request s\<close>: an allocation was asked to fail and no call of the allocator has
  met the request, which the final checks report through \<^verbatim>\<open>_cspec_error_fn\<close>.
\<close>

definition unmet_request :: "state \<Rightarrow> bool" where
  "unmet_request s \<longleftrightarrow>
     fail_level (memory_malloc_fail s) \<ge> fail_level M_WAS_EXPECTED
     \<and> memory_malloc_forced_failures s = 0"

text \<open>
  The state a program starts in, from the initialisers of the \<^verbatim>\<open>static\<close> variables
  (the entries of the stack above the root are zeroed: a \<^verbatim>\<open>NULL\<close> description), on a
  host whose allocator serves every request.
\<close>

definition initial_state :: state where
  "initial_state =
     \<lparr> test_failed = False, test_warned = False, test_in_function = False,
       test_in_progress = False, test_expect_fail = False, test_skip = False,
       test_current_line = 0, test_count = 0, test_passed_count = 0,
       test_warnings_count = 0, param_line = 0, param_no_expect_fail = False,
       param_memory_test = True, memory_arr = (\<lambda>a. 0), memory_ptr = 0,
       memory_records = None, memory_records_capacity = 0, memory_records_size = 0,
       memory_count_mallocs = 0, memory_count_frees = 0, memory_expect_error = False,
       memory_error = False, memory_malloc_fail = M_NORMAL,
       memory_malloc_forced_failures = 0,
       ctx_stack = root_context # replicate 19 \<lparr> desc = None, printed = False,
                                                   requested_context = False \<rparr>,
       ctx_stack_index = 0, ctx_stack_top = 0, events = [],
       host_grants = (\<lambda>n. True) \<rparr>"

text \<open>
  A test under way right after the reset that starts a pass: \<^verbatim>\<open>process_function\<close> has
  called \<^verbatim>\<open>before_pass\<close> and set \<^verbatim>\<open>test_in_function\<close>, and \<^verbatim>\<open>_cspec_begin\<close> has set
  \<^verbatim>\<open>test_in_progress\<close>.
\<close>

definition test_state :: state where
  "test_state = (before_pass initial_state)\<lparr> test_in_function := True, test_in_progress := True \<rparr>"

text \<open>The same test after \<^verbatim>\<open>expect(to_fail)\<close>, and after \<^verbatim>\<open>expect(memory_errors)\<close>.\<close>

definition to_fail_state :: state where
  "to_fail_state = fst (cspec_expect_to_fail test_state)"


text \<open>
  The test that declared \<^verbatim>\<open>expect(to_fail)\<close> after it has handed \<^verbatim>\<open>free\<close> a pointer
  that lies outside the arena.
\<close>

definition stray_free_state :: state where
  "stray_free_state = cspec_error_mem Free_out_of_bounds to_fail_state"

text \<open>
  The test of \<open>test_state\<close> in a run with the option \<^verbatim>\<open>-f\<close>, and what \<^verbatim>\<open>malloc(5000)\<close> leaves
  of \<open>test_state\<close>.
\<close>

definition forced_state :: state where
  "forced_state = test_state\<lparr> param_no_expect_fail := True \<rparr>"


text \<open>
  What a call of \<^verbatim>\<open>_cspec_end\<close> leaves in the counters: the number of tests run and the
  number of tests passed. A test is counted as failed when the first goes up and the
  second does not.
\<close>

definition end_counts :: "state \<Rightarrow> fault + int \<times> int" where
  "end_counts s =
     (case cspec_end s of
        Inl f \<Rightarrow> Inl f
      | Inr (t, b) \<Rightarrow> Inr (test_count t, test_passed_count t))"

text \<open>
  The sandbox after \<^verbatim>\<open>malloc(5)\<close> in the test of \<open>test_state\<close>, and after a second call,
  \<^verbatim>\<open>malloc(4)\<close>.
\<close>

definition one_block_state :: state where
  "one_block_state = (case cspec_malloc test_state 5 of Inr (s, p) \<Rightarrow> s | Inl f \<Rightarrow> test_state)"

definition two_block_state :: state where
  "two_block_state = (case cspec_malloc one_block_state 4 of Inr (s, p) \<Rightarrow> s | Inl f \<Rightarrow> test_state)"

text \<open>
  The test of \<open>one_block_state\<close> after it has written one byte past the five it asked for
  (\<^verbatim>\<open>p[5] = 0\<close>), and after the call \<^verbatim>\<open>malloc(4)\<close> that follows.
\<close>

definition smashed_state :: state where
  "smashed_state = one_block_state\<lparr> memory_arr := (memory_arr one_block_state)(28 := 0) \<rparr>"

definition overrun_state :: state where
  "overrun_state =
     cspec_error_mem Malloc_preceding_fence
       (smashed_state\<lparr> memory_count_mallocs := 2, memory_records_size := 2 \<rparr>)"

text \<open>
  The block of a test that allocates five bytes, writes one byte past them and
  allocates again: \<^verbatim>\<open>char* p = malloc(5); p[5] = 0; malloc(4);\<close> (the write goes through a
  \<^verbatim>\<open>NULL\<close> pointer when the first call hands out none). The group \<open>overrun_group\<close> holds
  this one test, on line 4.
\<close>

definition overrun :: "state \<Rightarrow> fault + state \<times> bool" where
  "overrun s =
     (case cspec_malloc s 5 of
        Inl f \<Rightarrow> Inl f
      | Inr (s1, None) \<Rightarrow> Inl Stray_write
      | Inr (s1, Some p) \<Rightarrow>
          (case store_byte s1 (p + 5) 0 of
             Inl f \<Rightarrow> Inl f
           | Inr s2 \<Rightarrow>
               (case cspec_malloc s2 4 of
                  Inl f \<Rightarrow> Inl f
                | Inr (s3, q) \<Rightarrow> Inr (s3, False))))"

definition overrun_group :: "item list" where
  "overrun_group = [Test 4 overrun]"

text \<open>
  A group is well formed when the lines of its blocks, read from top to bottom, do not
  decrease (they are the values of \<^verbatim>\<open>__LINE__\<close>), the descriptions of its contexts are at
  addresses that differ from each other and from the root's (as those of literals with
  different texts are), and its blocks leave the variables that steer the engine alone:
  the flag of a test in progress, the current line and the stack of contexts.
\<close>

fun lines_of :: "item list \<Rightarrow> int list" where
  "lines_of [] = []"
| "lines_of (Test line body # its) = line # lines_of its"
| "lines_of (Setup f # its) = lines_of its"
| "lines_of (Context line d sub # its) = line # lines_of sub @ lines_of its"

fun descs_of :: "item list \<Rightarrow> text_ptr list" where
  "descs_of [] = []"
| "descs_of (Test line body # its) = descs_of its"
| "descs_of (Setup f # its) = descs_of its"
| "descs_of (Context line d sub # its) = d # descs_of sub @ descs_of its"

definition keeps_control :: "(state \<Rightarrow> fault + state \<times> bool) \<Rightarrow> bool" where
  "keeps_control f \<longleftrightarrow>
     (\<forall>s t b. f s = Inr (t, b) \<longrightarrow>
        test_in_progress t = test_in_progress s
        \<and> test_current_line t = test_current_line s
        \<and> ctx_stack t = ctx_stack s
        \<and> ctx_stack_index t = ctx_stack_index s
        \<and> ctx_stack_top t = ctx_stack_top s)"

fun bodies_ok :: "item list \<Rightarrow> bool" where
  "bodies_ok [] = True"
| "bodies_ok (Test line body # its) = (keeps_control body \<and> bodies_ok its)"
| "bodies_ok (Setup f # its) = (keeps_control f \<and> bodies_ok its)"
| "bodies_ok (Context line d sub # its) = (bodies_ok sub \<and> bodies_ok its)"

definition well_formed :: "item list \<Rightarrow> bool" where
  "well_formed body \<longleftrightarrow>
     sorted (lines_of body) \<and> distinct (descs_of body)
     \<and> root_desc \<notin> set (descs_of body) \<and> bodies_ok body"

definition ctx_start :: "state \<Rightarrow> bool" where
  "ctx_start s \<longleftrightarrow>
     ctx_stack_top s = 0 \<and> ctx_stack_index s = 0
     \<and> length (ctx_stack s) = nat cspec_ctx_stack_size_max
     \<and> ctx_stack s ! 0 = root_context"

text \<open>
  The states the context stack reaches when the calls are the ones the macros make. A
  group starts with the stack at its root. \<open>enter\<close> is a call of \<^verbatim>\<open>_cspec_context_begin\<close>
  for a context, whose description is not the root's. \<open>leave\<close> is what the second round
  of the \<^verbatim>\<open>context\<close> macro's loop does: it calls \<^verbatim>\<open>_cspec_context_begin\<close> again and, only
  when that returns true, \<^verbatim>\<open>_cspec_context_end\<close>. Tests begin and end in between, and
  \<^verbatim>\<open>before_pass\<close> and \<^verbatim>\<open>context_clear_stack\<close> are the resets per pass and per group.
\<close>

inductive ctx_reachable :: "state \<Rightarrow> bool" where
  start: "ctx_start s \<Longrightarrow> ctx_reachable s"
| enter: "ctx_reachable s \<Longrightarrow> d \<noteq> root_desc
    \<Longrightarrow> ctx_reachable (fst (cspec_context_begin line d s))"
| leave: "ctx_reachable s \<Longrightarrow> d \<noteq> root_desc
    \<Longrightarrow> snd (cspec_context_begin line d s)
    \<Longrightarrow> ctx_reachable (fst (cspec_context_end line (fst (cspec_context_begin line d s))))"
| test_begin: "ctx_reachable s \<Longrightarrow> ctx_reachable (fst (cspec_begin line s))"
| test_end: "ctx_reachable s \<Longrightarrow> cspec_end s = Inr (t, b) \<Longrightarrow> ctx_reachable t"
| pass: "ctx_reachable s \<Longrightarrow> ctx_reachable (before_pass s)"
| clear: "ctx_reachable s \<Longrightarrow> ctx_reachable (context_clear_stack s)"

definition ctx_inv :: "state \<Rightarrow> bool" where
  "ctx_inv s \<longleftrightarrow>
     0 \<le> ctx_stack_index s \<and> ctx_stack_index s \<le> ctx_stack_top s
     \<and> ctx_stack_top s < cspec_ctx_stack_size_max
     \<and> length (ctx_stack s) = nat cspec_ctx_stack_size_max
     \<and> ctx_stack s ! 0 = root_context"

text \<open>The stack after \<open>n\<close> contexts, one inside the other, have been entered.\<close>

fun nest :: "nat \<Rightarrow> state \<Rightarrow> state" where
  "nest 0 s = s"
| "nest (Suc n) s = fst (cspec_context_begin (int (Suc n)) (Some (Suc n)) (nest n s))"

text \<open>
  What the proof that the passes come to an end measures. \<open>path s k\<close> is the list of the
  descriptions on the stack above level \<open>k\<close>: the contexts a pass has to enter again to
  come back to where the last one stopped. \<open>weight c ds its\<close> counts, in the order of
  the source, the contexts of \<open>its\<close> that a pass at line \<open>c\<close> with the path \<open>ds\<close> to enter
  again can still enter, a context weighing more than everything inside and after it;
  \<open>ready c its ds\<close> says that this path can be followed: every block in front of a
  context of the path lies at or before line \<open>c\<close>.
\<close>

fun count_ctx :: "item list \<Rightarrow> nat" where
  "count_ctx [] = 0"
| "count_ctx (Test line body # its) = count_ctx its"
| "count_ctx (Setup f # its) = count_ctx its"
| "count_ctx (Context line d sub # its) = Suc (count_ctx sub + count_ctx its)"

fun weight :: "int \<Rightarrow> text_ptr list \<Rightarrow> item list \<Rightarrow> nat" where
  "weight c ds [] = 0"
| "weight c ds (Test line body # its) = weight c ds its"
| "weight c ds (Setup f # its) = weight c ds its"
| "weight c ds (Context line d sub # its) =
     (if ds \<noteq> [] \<and> hd ds = d then 2 ^ count_ctx sub + weight c (tl ds) sub
      else if c \<le> line then 2 ^ count_ctx sub + weight c [] sub
      else 0) * 2 ^ count_ctx its + weight c ds its"

fun ready :: "int \<Rightarrow> item list \<Rightarrow> text_ptr list \<Rightarrow> bool" where
  "ready c its [] = True"
| "ready c [] (d # ds) = False"
| "ready c (Test line body # its) (d # ds) = (line \<le> c \<and> ready c its (d # ds))"
| "ready c (Setup f # its) (d # ds) = ready c its (d # ds)"
| "ready c (Context line d' sub # its) (d # ds) =
     (if d' = d then ready c sub ds else line < c \<and> ready c its (d # ds))"

definition path :: "state \<Rightarrow> nat \<Rightarrow> text_ptr list" where
  "path s k = map (\<lambda>i. desc (ctx_stack s ! i)) [Suc k ..< Suc (nat (ctx_stack_top s))]"

text \<open>
  Below level \<open>k\<close> of the stack of contexts: the engine is between tests, at index \<open>k\<close>.
  What the run of a list of items at level \<open>k\<close> establishes, from the state \<open>s\<close> to the
  state \<open>s'\<close>, for lines between \<open>lo\<close> and \<open>hi\<close>.
\<close>

definition level :: "state \<Rightarrow> nat \<Rightarrow> bool" where
  "level s k \<longleftrightarrow>
     \<not> test_in_progress s \<and> ctx_stack_index s = int k \<and> int k \<le> ctx_stack_top s
     \<and> ctx_stack_top s < 20 \<and> length (ctx_stack s) = 20"

definition post :: "state \<Rightarrow> nat \<Rightarrow> item list \<Rightarrow> int \<Rightarrow> int \<Rightarrow> state \<Rightarrow> bool \<Rightarrow> bool" where
  "post s k its lo hi s' ret \<longleftrightarrow>
     int k \<le> ctx_stack_top s' \<and> ctx_stack_top s' < 20 \<and> length (ctx_stack s') = 20
     \<and> (\<forall>i \<le> k. ctx_stack s' ! i = ctx_stack s ! i)
     \<and> ready (test_current_line s') its (path s' k)
     \<and> weight (test_current_line s') (path s' k) its
          \<le> weight (test_current_line s) (path s k) its
     \<and> (test_current_line s' < test_current_line s \<longrightarrow>
          weight (test_current_line s') (path s' k) its
            < weight (test_current_line s) (path s k) its)
     \<and> (test_current_line s \<le> test_current_line s' \<or> lo < test_current_line s')
     \<and> test_current_line s' \<le> max (test_current_line s) hi
     \<and> (test_in_progress s' \<longrightarrow> test_current_line s < test_current_line s')
     \<and> (\<not> test_in_progress s' \<and> \<not> ret \<longrightarrow>
          ctx_stack_index s' = int k \<and> ctx_stack_top s' = int k \<and> ctx_stack_top s = int k)"

text \<open>What holds at the start of every pass, and the pair that decreases from pass to pass.\<close>

definition pass_inv :: "item list \<Rightarrow> int \<Rightarrow> state \<Rightarrow> bool" where
  "pass_inv body H s \<longleftrightarrow>
     \<not> test_in_progress s \<and> 0 \<le> ctx_stack_top s \<and> ctx_stack_top s < 20
     \<and> length (ctx_stack s) = 20 \<and> desc (ctx_stack s ! 0) = root_desc
     \<and> ready (test_current_line s) body (path s 0) \<and> test_current_line s \<le> H"

definition pass_measure :: "item list \<Rightarrow> int \<Rightarrow> state \<Rightarrow> nat \<times> nat" where
  "pass_measure body H s =
     (weight (test_current_line s) (path s 0) body, nat (H - test_current_line s))"

section \<open>Properties\<close>

subsection \<open>What the error functions leave unchanged\<close>

lemma frame_refl: "frame s s"
  by (simp add: frame_def)

lemma frame_trans: "frame s t \<Longrightarrow> frame t u \<Longrightarrow> frame s u"
  by (simp add: frame_def)

lemma frame_error_mem: "frame s (cspec_error_mem msg s)"
  by (simp add: frame_def cspec_error_mem_def)

lemma frame_error_fn: "frame s (cspec_error_fn msg s)"
  by (simp add: frame_def cspec_error_fn_def)

lemma frame_fold:
  assumes "\<And>x t. frame t (f x t)"
  shows "frame s (fold f xs s)"
proof (induction xs arbitrary: s)
  case Nil
  show ?case by (simp add: frame_refl)
next
  case (Cons x xs)
  have "frame s (f x s)" by (rule assms)
  moreover have "frame (f x s) (fold f xs (f x s))" by (rule Cons.IH)
  ultimately show ?case by (auto intro: frame_trans)
qed

lemma frame_check_record:
  assumes "check_record r s = Inr t"
  shows "frame s t"
proof -
  obtain ok where ok: "memory_check_fence (memory_arr s) r = Inr ok"
    using assms by (cases "memory_check_fence (memory_arr s) r") (simp_all add: check_record_def)
  let ?s1 = "if \<not> ok then cspec_error_mem After_fence_broken s else s"
  have 1: "frame s ?s1" by (simp add: frame_refl frame_error_mem)
  have 2: "frame ?s1 (fold (\<lambda>j t. if memory_arr t (block r + int memory_size_fence + int j) \<noteq> chr_F
                           then cspec_error_mem After_modified_after_free t else t)
                [0 ..< size_r r] ?s1)"
    by (rule frame_fold) (simp add: frame_refl frame_error_mem)
  have 3: "frame ?s1 (cspec_error_mem After_not_freed ?s1)" by (rule frame_error_mem)
  have "t = fold (\<lambda>j t. if memory_arr t (block r + int memory_size_fence + int j) \<noteq> chr_F
                           then cspec_error_mem After_modified_after_free t else t)
                [0 ..< size_r r] ?s1
        \<or> t = cspec_error_mem After_not_freed ?s1"
    using assms ok by (auto simp: check_record_def Let_def split: if_splits)
  then show ?thesis
    using frame_trans[OF 1 2] frame_trans[OF 1 3] by auto
qed

lemma frame_check_records:
  "check_records es s = Inr t \<Longrightarrow> frame s t"
proof (induction es s rule: check_records.induct)
  case (1 s)
  then show ?case by (simp add: frame_refl)
next
  case (2 es s)
  then show ?case by simp
next
  case (3 r es s)
  from "3.prems" obtain s1 where s1: "check_record r s = Inr s1" "check_records es s1 = Inr t"
    by (cases "check_record r s") simp_all
  from frame_check_record[OF s1(1)] "3.IH"[OF s1(1) s1(2)]
  show ?case by (rule frame_trans)
qed

lemma frame_check_barrier: "frame s (check_barrier i s)"
  by (simp add: check_barrier_def frame_refl frame_error_mem)

lemma final_checks_cases:
  assumes "memory_final_checks s = Inr t"
  obtains s1 where "check_records (records_in_use s) s = Inr s1" and "t = check_counts s1"
  using assms
  by (cases "check_records (records_in_use s) s") (simp_all add: memory_final_checks_def)

lemma frame_check_counts: "frame s (check_counts s)"
proof -
  let ?s2 = "fold check_barrier [0 ..< memory_size_barrier] s"
  let ?s3 = "if memory_count_mallocs ?s2 \<noteq> memory_count_frees ?s2
                then cspec_error_mem After_mismatched ?s2 else ?s2"
  have 2: "frame s ?s2" by (rule frame_fold) (rule frame_check_barrier)
  have 3: "frame ?s2 ?s3" by (simp add: frame_refl frame_error_mem)
  have 4: "frame ?s3 (if fail_level (memory_malloc_fail ?s3) \<ge> fail_level M_WAS_EXPECTED
            \<and> memory_malloc_forced_failures ?s3 = 0
         then cspec_error_fn After_fail_never_called ?s3 else ?s3)"
    by (simp add: frame_refl frame_error_fn)
  show ?thesis
    unfolding check_counts_def Let_def
    using frame_trans[OF frame_trans[OF 2 3] 4] .
qed

lemma frame_final_checks:
  assumes "memory_final_checks s = Inr t"
  shows "frame s t"
proof -
  from final_checks_cases[OF assms] obtain s1 where
    c: "check_records (records_in_use s) s = Inr s1" and t: "t = check_counts s1"
    by blast
  show ?thesis
    unfolding t using frame_check_records[OF c] frame_check_counts by (rule frame_trans)
qed

lemma mem_frame_refl: "mem_frame s s"
  by (simp add: mem_frame_def)

lemma mem_frame_trans: "mem_frame s t \<Longrightarrow> mem_frame t u \<Longrightarrow> mem_frame s u"
  by (simp add: mem_frame_def)

lemma mem_frame_error_mem: "mem_frame s (cspec_error_mem msg s)"
  by (simp add: mem_frame_def cspec_error_mem_def)

lemma mem_frame_fold:
  assumes "\<And>x t. mem_frame t (f x t)"
  shows "mem_frame s (fold f xs s)"
proof (induction xs arbitrary: s)
  case Nil
  show ?case by (simp add: mem_frame_refl)
next
  case (Cons x xs)
  have "mem_frame s (f x s)" by (rule assms)
  moreover have "mem_frame (f x s) (fold f xs (f x s))" by (rule Cons.IH)
  ultimately show ?case by (auto intro: mem_frame_trans)
qed

lemma mem_frame_check_record:
  assumes "check_record r s = Inr t"
  shows "mem_frame s t"
proof -
  obtain ok where ok: "memory_check_fence (memory_arr s) r = Inr ok"
    using assms by (cases "memory_check_fence (memory_arr s) r") (simp_all add: check_record_def)
  let ?s1 = "if \<not> ok then cspec_error_mem After_fence_broken s else s"
  have 1: "mem_frame s ?s1" by (simp add: mem_frame_refl mem_frame_error_mem)
  have 2: "mem_frame ?s1 (fold (\<lambda>j t. if memory_arr t (block r + int memory_size_fence + int j) \<noteq> chr_F
                           then cspec_error_mem After_modified_after_free t else t)
                [0 ..< size_r r] ?s1)"
    by (rule mem_frame_fold) (simp add: mem_frame_refl mem_frame_error_mem)
  have 3: "mem_frame ?s1 (cspec_error_mem After_not_freed ?s1)" by (rule mem_frame_error_mem)
  have "t = fold (\<lambda>j t. if memory_arr t (block r + int memory_size_fence + int j) \<noteq> chr_F
                           then cspec_error_mem After_modified_after_free t else t)
                [0 ..< size_r r] ?s1
        \<or> t = cspec_error_mem After_not_freed ?s1"
    using assms ok by (auto simp: check_record_def Let_def split: if_splits)
  then show ?thesis
    using mem_frame_trans[OF 1 2] mem_frame_trans[OF 1 3] by auto
qed

lemma mem_frame_check_records:
  "check_records es s = Inr t \<Longrightarrow> mem_frame s t"
proof (induction es s rule: check_records.induct)
  case (1 s)
  then show ?case by (simp add: mem_frame_refl)
next
  case (2 es s)
  then show ?case by simp
next
  case (3 r es s)
  from "3.prems" obtain s1 where s1: "check_record r s = Inr s1" "check_records es s1 = Inr t"
    by (cases "check_record r s") simp_all
  from mem_frame_check_record[OF s1(1)] "3.IH"[OF s1(1) s1(2)]
  show ?case by (rule mem_frame_trans)
qed

lemma mem_frame_check_barrier: "mem_frame s (check_barrier i s)"
  by (simp add: check_barrier_def mem_frame_refl mem_frame_error_mem)

lemma mem_frame_field:
  assumes "mem_frame s t"
  shows "test_failed t = test_failed s"
    and "memory_malloc_fail t = memory_malloc_fail s"
    and "memory_malloc_forced_failures t = memory_malloc_forced_failures s"
    and "test_in_progress t = test_in_progress s"
proof -
  have e: "t\<lparr> events := [], memory_error := False \<rparr> = s\<lparr> events := [], memory_error := False \<rparr>"
    using assms by (simp add: mem_frame_def)
  show "test_failed t = test_failed s"
    using arg_cong[OF e, of test_failed] by simp
  show "memory_malloc_fail t = memory_malloc_fail s"
    using arg_cong[OF e, of memory_malloc_fail] by simp
  show "memory_malloc_forced_failures t = memory_malloc_forced_failures s"
    using arg_cong[OF e, of memory_malloc_forced_failures] by simp
  show "test_in_progress t = test_in_progress s"
    using arg_cong[OF e, of test_in_progress] by simp
qed

lemma check_counts_failed:
  "test_failed (check_counts s) \<longleftrightarrow> test_failed s \<or> (test_in_progress s \<and> unmet_request s)"
proof -
  let ?s2 = "fold check_barrier [0 ..< memory_size_barrier] s"
  let ?s3 = "if memory_count_mallocs ?s2 \<noteq> memory_count_frees ?s2
                then cspec_error_mem After_mismatched ?s2 else ?s2"
  have 2: "mem_frame s ?s2" by (rule mem_frame_fold) (rule mem_frame_check_barrier)
  have 3: "mem_frame ?s2 ?s3" by (simp add: mem_frame_refl mem_frame_error_mem)
  have f: "mem_frame s ?s3"
    using mem_frame_trans[OF 2 3] .
  define s3 where "s3 = ?s3"
  have g: "test_failed s3 = test_failed s" "memory_malloc_fail s3 = memory_malloc_fail s"
    "memory_malloc_forced_failures s3 = memory_malloc_forced_failures s"
    "test_in_progress s3 = test_in_progress s"
    using mem_frame_field[OF f] by (simp_all add: s3_def)
  have "check_counts s = (if fail_level (memory_malloc_fail s3) \<ge> fail_level M_WAS_EXPECTED
            \<and> memory_malloc_forced_failures s3 = 0
         then cspec_error_fn After_fail_never_called s3 else s3)"
    by (simp add: check_counts_def Let_def s3_def)
  then show ?thesis
    using g by (auto simp: cspec_error_fn_def unmet_request_def)
qed

lemma final_checks_failed:
  assumes "memory_final_checks s = Inr t"
  shows "test_failed t \<longleftrightarrow> test_failed s \<or> (test_in_progress s \<and> unmet_request s)"
proof -
  from final_checks_cases[OF assms] obtain s1 where
    c: "check_records (records_in_use s) s = Inr s1" and t: "t = check_counts s1"
    by blast
  note f = mem_frame_field[OF mem_frame_check_records[OF c]]
  show ?thesis
    unfolding t check_counts_failed using f by (simp add: unmet_request_def)
qed

lemma frame_field:
  assumes "frame s t"
  shows "test_passed_count t = test_passed_count s"
    and "test_expect_fail t = test_expect_fail s"
    and "memory_expect_error t = memory_expect_error s"
    and "test_in_progress t = test_in_progress s"
    and "test_count t = test_count s"
    and "test_current_line t = test_current_line s"
    and "ctx_stack t = ctx_stack s"
    and "ctx_stack_top t = ctx_stack_top s"
    and "ctx_stack_index t = ctx_stack_index s"
    and "param_no_expect_fail t = param_no_expect_fail s"
proof -
  have e: "t\<lparr> events := [], memory_error := False, test_failed := False \<rparr>
       = s\<lparr> events := [], memory_error := False, test_failed := False \<rparr>"
    using assms by (simp add: frame_def)
  show "test_passed_count t = test_passed_count s"
    using arg_cong[OF e, of test_passed_count] by simp
  show "test_expect_fail t = test_expect_fail s"
    using arg_cong[OF e, of test_expect_fail] by simp
  show "memory_expect_error t = memory_expect_error s"
    using arg_cong[OF e, of memory_expect_error] by simp
  show "test_in_progress t = test_in_progress s"
    using arg_cong[OF e, of test_in_progress] by simp
  show "test_count t = test_count s"
    using arg_cong[OF e, of test_count] by simp
  show "test_current_line t = test_current_line s"
    using arg_cong[OF e, of test_current_line] by simp
  show "ctx_stack t = ctx_stack s"
    using arg_cong[OF e, of ctx_stack] by simp
  show "ctx_stack_top t = ctx_stack_top s"
    using arg_cong[OF e, of ctx_stack_top] by simp
  show "ctx_stack_index t = ctx_stack_index s"
    using arg_cong[OF e, of ctx_stack_index] by simp
  show "param_no_expect_fail t = param_no_expect_fail s"
    using arg_cong[OF e, of param_no_expect_fail] by simp
qed

lemma frame_mono:
  assumes "frame s t"
  shows "memory_error s \<Longrightarrow> memory_error t" and "test_failed s \<Longrightarrow> test_failed t"
  using assms by (simp_all add: frame_def)

text \<open>What \<open>end_checks\<close> does when it returns, and when it does not.\<close>

lemma end_checks_cases:
  "end_checks s = Inr e \<longleftrightarrow>
     (if \<not> test_failed s \<and> param_memory_test s
      then \<exists>t. memory_final_checks s = Inr t \<and> e = t\<lparr> test_count := test_count t + 1 \<rparr>
      else e = s\<lparr> test_count := test_count s + 1 \<rparr>)"
  by (cases "memory_final_checks s") (auto simp: end_checks_def)

lemma end_checks_frame:
  assumes "end_checks s = Inr e"
  shows "frame s (e\<lparr> test_count := test_count s \<rparr>)"
proof (cases "\<not> test_failed s \<and> param_memory_test s")
  case True
  then obtain t where t: "memory_final_checks s = Inr t" "e = t\<lparr> test_count := test_count t + 1 \<rparr>"
    using assms by (auto simp: end_checks_cases)
  have f: "frame s t" using t(1) by (rule frame_final_checks)
  have "t\<lparr> test_count := test_count s \<rparr> = t"
    using frame_field(5)[OF f] by simp
  then show ?thesis using f t(2) by simp
next
  case False
  then have "e = s\<lparr> test_count := test_count s + 1 \<rparr>"
    using assms by (auto simp: end_checks_cases)
  then show ?thesis by (simp add: frame_refl)
qed

lemma end_checks_fields:
  assumes "end_checks s = Inr e"
  shows "test_passed_count e = test_passed_count s"
    and "test_expect_fail e = test_expect_fail s"
    and "memory_expect_error e = memory_expect_error s"
    and "test_in_progress e = test_in_progress s"
    and "test_count e = test_count s + 1"
    and "test_current_line e = test_current_line s"
    and "ctx_stack e = ctx_stack s"
    and "ctx_stack_top e = ctx_stack_top s"
    and "ctx_stack_index e = ctx_stack_index s"
    and "memory_error s \<Longrightarrow> memory_error e"
    and "test_failed s \<Longrightarrow> test_failed e"
proof -
  note f = end_checks_frame[OF assms]
  show "test_passed_count e = test_passed_count s" using frame_field(1)[OF f] by simp
  show "test_expect_fail e = test_expect_fail s" using frame_field(2)[OF f] by simp
  show "memory_expect_error e = memory_expect_error s" using frame_field(3)[OF f] by simp
  show "test_in_progress e = test_in_progress s" using frame_field(4)[OF f] by simp
  show "test_current_line e = test_current_line s" using frame_field(6)[OF f] by simp
  show "ctx_stack e = ctx_stack s" using frame_field(7)[OF f] by simp
  show "ctx_stack_top e = ctx_stack_top s" using frame_field(8)[OF f] by simp
  show "ctx_stack_index e = ctx_stack_index s" using frame_field(9)[OF f] by simp
  show "memory_error s \<Longrightarrow> memory_error e" using frame_mono(1)[OF f] by simp
  show "test_failed s \<Longrightarrow> test_failed e" using frame_mono(2)[OF f] by simp
  show "test_count e = test_count s + 1"
  proof (cases "\<not> test_failed s \<and> param_memory_test s")
    case True
    then obtain t where t: "memory_final_checks s = Inr t"
      "e = t\<lparr> test_count := test_count t + 1 \<rparr>"
      using assms by (auto simp: end_checks_cases)
    show ?thesis using frame_field(5)[OF frame_final_checks[OF t(1)]] t(2) by simp
  next
    case False
    then show ?thesis using assms by (auto simp: end_checks_cases)
  qed
qed

lemma end_checks_failed:
  assumes "end_checks s = Inr e" "test_in_progress s"
  shows "test_failed e \<longleftrightarrow> test_failed s \<or> (param_memory_test s \<and> unmet_request s)"
proof (cases "\<not> test_failed s \<and> param_memory_test s")
  case True
  then obtain t where t: "memory_final_checks s = Inr t" "e = t\<lparr> test_count := test_count t + 1 \<rparr>"
    using assms(1) by (auto simp: end_checks_cases)
  show ?thesis
    using final_checks_failed[OF t(1)] t(2) True assms(2) by simp
next
  case False
  then have "e = s\<lparr> test_count := test_count s + 1 \<rparr>"
    using assms(1) by (auto simp: end_checks_cases)
  then show ?thesis using False by auto
qed

lemma cspec_end_fault:
  "test_in_progress s \<Longrightarrow> end_checks s = Inl f \<Longrightarrow> cspec_end s = Inl f"
  by (simp add: cspec_end_def)

lemma cspec_end_returns:
  assumes "test_in_progress s" "end_checks s = Inr e"
  shows "\<exists>t. cspec_end s = Inr (t, True)
     \<and> test_passed_count t =
           (if end_passes e then test_passed_count s + 1 else test_passed_count s)
     \<and> test_count t = test_count s + 1
     \<and> \<not> test_in_progress t
     \<and> test_current_line t = test_current_line s
     \<and> ctx_stack t = ctx_stack s \<and> ctx_stack_top t = ctx_stack_top s
     \<and> ctx_stack_index t = ctx_stack_index s"
  using assms end_checks_fields[OF assms(2)]
  by (auto simp: cspec_end_def Let_def cspec_error_fn_def)

subsection \<open>The sandbox after a reset\<close>

lemmas sizes = memory_size_fence_def memory_size_barrier_def memory_size_max_def
  memory_size_full_def memory_def

lemmas chars = chr_b_def chr_e_def chr_N_def chr_F_def chr_X_def byte_FF_def

lemma cspec_memset_apply:
  "cspec_memset m a c n x = (if a \<le> x \<and> x < a + int n then c else m x)"
  by (induction n arbitrary: m a) auto

lemma fold_unchanged:
  "(\<And>x. x \<in> set xs \<Longrightarrow> f x s = s) \<Longrightarrow> fold f xs s = s"
  by (induction xs) auto

lemma reset_fields:
  "memory_ptr (memory_test_reset True s) = 0"
  "memory_records_size (memory_test_reset True s) = 0"
  "memory_count_mallocs (memory_test_reset True s) = 0"
  "memory_count_frees (memory_test_reset True s) = 0"
  "memory_error (memory_test_reset True s) = False"
  "memory_expect_error (memory_test_reset True s) = False"
  "memory_malloc_fail (memory_test_reset True s) = M_NORMAL"
  "memory_malloc_forced_failures (memory_test_reset True s) = 0"
  "events (memory_test_reset True s) = events s"
  "test_in_progress (memory_test_reset True s) = test_in_progress s"
  "test_expect_fail (memory_test_reset True s) = test_expect_fail s"
  by (simp_all add: memory_test_reset_def Let_def)

lemma reset_arr:
  "memory_arr (memory_test_reset True s) x =
     (if 0 \<le> x \<and> x < 16 then byte_FF
      else if 16 \<le> x \<and> x < 4112 then chr_X
      else if 4112 \<le> x \<and> x < 4128 then byte_FF
      else memory_arr s x)"
  by (simp add: memory_test_reset_def Let_def cspec_memset_apply sizes)


lemma before_pass_fields:
  assumes "param_memory_test s"
  shows "memory_ptr (before_pass s) = 0"
    and "memory_records_size (before_pass s) = 0"
    and "memory_count_mallocs (before_pass s) = 0"
    and "memory_count_frees (before_pass s) = 0"
    and "memory_error (before_pass s) = False"
    and "memory_expect_error (before_pass s) = False"
    and "memory_malloc_fail (before_pass s) = M_NORMAL"
    and "memory_malloc_forced_failures (before_pass s) = 0"
    and "test_failed (before_pass s) = False"
    and "test_expect_fail (before_pass s) = False"
  using assms by (simp_all add: before_pass_def Let_def reset_fields)

lemma before_pass_arr:
  assumes "param_memory_test s"
  shows "memory_arr (before_pass s) x =
     (if 0 \<le> x \<and> x < 16 then byte_FF
      else if 16 \<le> x \<and> x < 4112 then chr_X
      else if 4112 \<le> x \<and> x < 4128 then byte_FF
      else memory_arr s x)"
  using assms by (simp add: before_pass_def Let_def reset_arr)


lemma before_pass_control:
  "test_in_progress (before_pass s) = test_in_progress s"
  "test_current_line (before_pass s) = test_current_line s"
  "ctx_stack (before_pass s) = ctx_stack s"
  "ctx_stack_top (before_pass s) = ctx_stack_top s"
  "ctx_stack_index (before_pass s) = 0"
  "param_line (before_pass s) = param_line s"
  "test_skip (before_pass s) = False"
  "param_memory_test (before_pass s) = param_memory_test s"
  by (simp_all add: before_pass_def memory_test_reset_def Let_def)

text \<open>The fences of a record that lies inside the array, byte by byte.\<close>

lemma check_fence_from_in_array:
  assumes "in_array (block r) (memory_size_fence * 2 + size_r r)" "i + k \<le> memory_size_fence"
  shows "check_fence_from m r i k =
     Inr (\<forall>j. i \<le> j \<and> j < i + k \<longrightarrow>
            m (block r + int j) = chr_b
            \<and> m (block r + int j + int memory_size_fence + int (size_r r)) = chr_e)"
  using assms(2)
proof (induction k arbitrary: i)
  case 0
  then show ?case by auto
next
  case (Suc k)
  have a: "in_array (block r + int i) 1"
    "in_array (block r + int i + int memory_size_fence + int (size_r r)) 1"
    using assms(1) Suc.prems by (simp_all add: in_array_def sizes)
  have ih: "check_fence_from m r (Suc i) k =
     Inr (\<forall>j. Suc i \<le> j \<and> j < Suc i + k \<longrightarrow>
            m (block r + int j) = chr_b
            \<and> m (block r + int j + int memory_size_fence + int (size_r r)) = chr_e)"
    using Suc.IH[of "Suc i"] Suc.prems by simp
  have split: "(\<forall>j. i \<le> j \<and> j < i + Suc k \<longrightarrow> P j)
      \<longleftrightarrow> P i \<and> (\<forall>j. Suc i \<le> j \<and> j < Suc i + k \<longrightarrow> P j)" for P
    by (metis Suc_leD Suc_le_eq add_Suc add_Suc_right le_eq_less_or_eq less_add_Suc1)
  show ?case
    unfolding split
    using a ih by auto
qed

lemma check_fence_in_array:
  assumes "in_array (block r) (memory_size_fence * 2 + size_r r)"
  shows "memory_check_fence m r =
     Inr (\<forall>j < 7. m (block r + int j) = chr_b \<and> m (block r + int j + 7 + int (size_r r)) = chr_e)"
  using check_fence_from_in_array[OF assms, of 0 memory_size_fence m]
  by (simp add: memory_check_fence_def sizes)

lemma fence_loop_in_array:
  assumes "in_array a k"
  shows "fence_loop m a k = Inr (\<forall>j < k. m (a + int j) = chr_e)"
  using assms
proof (induction k arbitrary: a)
  case 0
  then show ?case by simp
next
  case (Suc k)
  have a: "in_array a 1" "in_array (a + 1) k"
    using Suc.prems by (auto simp: in_array_def)
  have split: "(\<forall>j < Suc k. P j) \<longleftrightarrow> P 0 \<and> (\<forall>j < k. P (Suc j))" for P
    by (metis Suc_less_eq less_Suc_eq_0_disj)
  have "fence_loop m (a + 1) k = Inr (\<forall>j < k. m (a + 1 + int j) = chr_e)"
    using Suc.IH[OF a(2)] .
  moreover have "a + 1 + int j = a + int (Suc j)" for j by simp
  ultimately have "fence_loop m (a + 1) k = Inr (\<forall>j < k. m (a + int (Suc j)) = chr_e)"
    by simp
  then show ?case
    unfolding split using a(1) by (simp del: of_nat_Suc)
qed


lemma initial_facts:
  "param_memory_test initial_state" "table_ok initial_state"
  "memory_records (before_pass initial_state) \<noteq> None"
  "test_passed_count (before_pass initial_state) = 0"
  "events (before_pass initial_state) = []"
  "\<not> param_no_expect_fail (before_pass initial_state)"
  "param_memory_test (before_pass initial_state)"
  "test_count (before_pass initial_state) = 0"
  by (simp_all add: initial_state_def table_ok_def before_pass_def memory_test_reset_def Let_def)

lemma test_state_facts:
  "test_in_progress test_state" "test_in_function test_state"
  "param_memory_test test_state" "\<not> test_failed test_state"
  "\<not> test_expect_fail test_state" "\<not> memory_error test_state"
  "\<not> memory_expect_error test_state" "test_passed_count test_state = 0"
  "memory_records test_state \<noteq> None" "memory_ptr test_state = 0"
  "memory_malloc_fail test_state = M_NORMAL" "events test_state = []"
  "\<not> param_no_expect_fail test_state" "test_count test_state = 0"
  "memory_malloc_forced_failures test_state = 0"
  using before_pass_fields[OF initial_facts(1)] initial_facts
  by (simp_all add: test_state_def)

lemma test_state_table:
  "memory_records test_state = Some (replicate 16 None)"
  "memory_records_capacity test_state = 16" "memory_records_size test_state = 0"
  "memory_count_mallocs test_state = 0" "memory_count_frees test_state = 0"
  by (simp_all add: test_state_def initial_state_def before_pass_def memory_test_reset_def Let_def)

lemma test_state_arr:
  "memory_arr test_state x =
     (if 0 \<le> x \<and> x < 16 then byte_FF
      else if 16 \<le> x \<and> x < 4112 then chr_X
      else if 4112 \<le> x \<and> x < 4128 then byte_FF
      else 0)"
  using before_pass_arr[OF initial_facts(1), of x]
  by (simp add: test_state_def) (simp add: initial_state_def)



subsection \<open>When the final checks return\<close>

text \<open>
  The final checks return whenever every entry in use has been written and every record
  lies, with its two fences, inside \<^verbatim>\<open>_memory\<close> (as the records that \<^verbatim>\<open>cspec_malloc\<close> writes
  do); then \<^verbatim>\<open>_cspec_end\<close> returns as well.
\<close>

lemma check_record_returns:
  assumes "in_array (block r) (memory_size_fence * 2 + size_r r)"
  shows "\<exists>t. check_record r s = Inr t"
proof -
  have "in_array (block r + int memory_size_fence) (size_r r)"
    using assms by (auto simp: in_array_def sizes)
  then show ?thesis
    by (simp add: check_record_def check_fence_in_array[OF assms] Let_def)
qed

lemma check_records_returns:
  assumes "\<forall>r \<in> set rs. in_array (block r) (memory_size_fence * 2 + size_r r)"
  shows "\<exists>t. check_records (map Some rs) s = Inr t"
  using assms
proof (induction rs arbitrary: s)
  case Nil
  then show ?case by simp
next
  case (Cons r rs)
  obtain s1 where s1: "check_record r s = Inr s1"
    using check_record_returns[of r s] Cons.prems by auto
  obtain t where "check_records (map Some rs) s1 = Inr t"
    using Cons.IH[of s1] Cons.prems by auto
  then show ?case using s1 by simp
qed

lemma final_checks_returns:
  assumes "records_in_use s = map Some rs"
    and "\<forall>r \<in> set rs. in_array (block r) (memory_size_fence * 2 + size_r r)"
  shows "\<exists>t. memory_final_checks s = Inr t"
proof -
  obtain s1 where "check_records (map Some rs) s = Inr s1"
    using check_records_returns[OF assms(2)] by blast
  then show ?thesis by (simp add: memory_final_checks_def assms(1))
qed

lemma cspec_end_total:
  assumes "records_in_use s = map Some rs"
    and "\<forall>r \<in> set rs. in_array (block r) (memory_size_fence * 2 + size_r r)"
  shows "\<exists>t b. cspec_end s = Inr (t, b)"
proof -
  obtain u where u: "memory_final_checks s = Inr u"
    using final_checks_returns[OF assms] by blast
  have "\<exists>e. end_checks s = Inr e"
    by (cases "\<not> test_failed s \<and> param_memory_test s") (auto simp: end_checks_def u)
  then obtain e where "end_checks s = Inr e" by blast
  then show ?thesis
    by (cases "test_in_progress s") (auto simp: cspec_end_def Let_def)
qed

subsection \<open>The decision at the end of a test\<close>

lemma end_counts_fault:
  "test_in_progress s \<Longrightarrow> end_checks s = Inl f \<Longrightarrow> end_counts s = Inl f"
  by (simp add: end_counts_def cspec_end_fault)

lemma end_counts_returns:
  assumes "test_in_progress s" "end_checks s = Inr e"
  shows "end_counts s =
     Inr (test_count s + 1,
          if end_passes e then test_passed_count s + 1 else test_passed_count s)"
proof -
  from cspec_end_returns[OF assms] obtain t where
    "cspec_end s = Inr (t, True)"
    "test_passed_count t = (if end_passes e then test_passed_count s + 1 else test_passed_count s)"
    "test_count t = test_count s + 1"
    by blast
  then show ?thesis by (simp add: end_counts_def)
qed

lemma barriers_intact:
  assumes "\<And>i. i < 16 \<Longrightarrow> memory_arr s (int i) = byte_FF \<and> memory_arr s (int i + 4112) = byte_FF"
  shows "fold check_barrier [0 ..< memory_size_barrier] s = s"
proof (rule fold_unchanged)
  fix i assume "i \<in> set [0 ..< memory_size_barrier]"
  then have "i < 16" by (simp add: sizes)
  from assms[OF this] show "check_barrier i s = s"
    by (simp add: check_barrier_def sizes add.commute)
qed

text \<open>
  The final checks of a test that holds no record and left the barriers alone: only the
  counters are looked at.
\<close>

lemma end_checks_no_records:
  assumes "memory_records_size s = 0" "\<And>x. memory_arr s x = memory_arr test_state x"
    and "memory_count_mallocs s = memory_count_frees s"
    and "param_memory_test s" "\<not> test_failed s" "test_in_progress s"
  shows "end_checks s =
     Inr ((if unmet_request s then cspec_error_fn After_fail_never_called s else s)
            \<lparr> test_count := test_count s + 1 \<rparr>)"
proof -
  have "fold check_barrier [0 ..< memory_size_barrier] s = s"
    by (rule barriers_intact) (simp add: assms(2) test_state_arr)
  then have "check_counts s = (if unmet_request s then cspec_error_fn After_fail_never_called s else s)"
    using assms(3) by (simp add: check_counts_def Let_def unmet_request_def)
  then show ?thesis
    using assms(1,4,5,6)
    by (simp add: end_checks_def memory_final_checks_def records_in_use_def cspec_error_fn_def)
qed

lemma to_fail_facts:
  "test_in_progress to_fail_state" "test_expect_fail to_fail_state"
  "test_in_function to_fail_state" "memory_records to_fail_state \<noteq> None"
  "\<not> test_failed to_fail_state" "test_passed_count to_fail_state = 0"
  "memory_malloc_fail to_fail_state = M_NORMAL" "\<not> memory_error to_fail_state"
  "\<not> memory_expect_error to_fail_state" "test_count to_fail_state = 0"
  "param_memory_test to_fail_state" "memory_records_size to_fail_state = 0"
  "memory_count_mallocs to_fail_state = 0" "memory_count_frees to_fail_state = 0"
  "memory_arr to_fail_state = memory_arr test_state" "events to_fail_state = []"
  "memory_malloc_forced_failures to_fail_state = 0"
  using test_state_facts test_state_table
  by (simp_all add: to_fail_state_def cspec_expect_to_fail_def)




lemma stray_free_facts:
  "cspec_free to_fail_state (Some 5000) = Inr stray_free_state"
  "test_in_progress stray_free_state" "memory_error stray_free_state"
  "test_expect_fail stray_free_state" "\<not> test_failed stray_free_state"
  "\<not> memory_expect_error stray_free_state"
  "events stray_free_state = [Error_mem Free_out_of_bounds True]"
  "test_count stray_free_state = 0" "test_passed_count stray_free_state = 0"
  "end_checks stray_free_state = Inr (stray_free_state\<lparr> test_count := 1 \<rparr>)"
proof -
  show "cspec_free to_fail_state (Some 5000) = Inr stray_free_state"
    using to_fail_facts by (simp add: cspec_free_def stray_free_state_def sizes)
  show f: "test_in_progress stray_free_state" "memory_error stray_free_state"
    "test_expect_fail stray_free_state" "\<not> test_failed stray_free_state"
    "\<not> memory_expect_error stray_free_state"
    "events stray_free_state = [Error_mem Free_out_of_bounds True]"
    "test_count stray_free_state = 0" "test_passed_count stray_free_state = 0"
    using to_fail_facts by (simp_all add: stray_free_state_def cspec_error_mem_def)
  have "end_checks stray_free_state =
     Inr ((if unmet_request stray_free_state
           then cspec_error_fn After_fail_never_called stray_free_state else stray_free_state)
            \<lparr> test_count := test_count stray_free_state + 1 \<rparr>)"
    by (rule end_checks_no_records)
      (use to_fail_facts in \<open>simp_all add: stray_free_state_def cspec_error_mem_def\<close>)
  moreover have "\<not> unmet_request stray_free_state"
    using to_fail_facts by (simp add: unmet_request_def stray_free_state_def cspec_error_mem_def)
  ultimately show "end_checks stray_free_state = Inr (stray_free_state\<lparr> test_count := 1 \<rparr>)"
    using f by simp
qed

text \<open>
  Claim C3 as stated fails in four ways, all for a test that declared \<^verbatim>\<open>expect(to_fail)\<close>.
  One that produced a memory error (here \<^verbatim>\<open>free\<close> of a pointer outside the arena) and no
  assertion failure is counted as failed. One that produced that memory error and an
  assertion failure is counted as failed as well: the memory error was not expected. In
  a run with the option \<^verbatim>\<open>-f\<close> one that produced an assertion failure is counted as failed.
  And one that produced neither kind of error but asked for an allocation to fail and
  never allocated is counted as passed.
\<close>

theorem C3_counterexample:
  "cspec_free to_fail_state (Some 5000) = Inr stray_free_state
   \<and> test_expect_fail stray_free_state \<and> memory_error stray_free_state
   \<and> \<not> test_failed stray_free_state
   \<and> events stray_free_state = [Error_mem Free_out_of_bounds True]
   \<and> end_counts stray_free_state = Inr (1, 0)
   \<and> end_counts (cspec_error_fn (Test_issue ''it fails'') stray_free_state) = Inr (1, 0)
   \<and> end_counts (cspec_error_fn (Test_issue ''it fails'')
                    (fst (cspec_expect_to_fail forced_state))) = Inr (1, 0)
   \<and> end_counts (fst (cspec_memory_malloc_null True to_fail_state)) = Inr (1, 1)"
proof -
  note s = stray_free_facts
  have 1: "end_counts stray_free_state = Inr (1, 0)"
    using end_counts_returns[OF s(2) s(10)] s by (simp add: end_passes_def)
  let ?a = "cspec_error_fn (Test_issue ''it fails'') stray_free_state"
  have a: "test_in_progress ?a" "test_failed ?a" "test_expect_fail ?a" "memory_error ?a"
    "\<not> memory_expect_error ?a" "test_count ?a = 0" "test_passed_count ?a = 0"
    using s by (simp_all add: cspec_error_fn_def)
  have ea: "end_checks ?a = Inr (?a\<lparr> test_count := 1 \<rparr>)"
    using a by (simp add: end_checks_def)
  have 2: "end_counts ?a = Inr (1, 0)"
    using end_counts_returns[OF a(1) ea] a by (simp add: end_passes_def)
  let ?b = "cspec_error_fn (Test_issue ''it fails'') (fst (cspec_expect_to_fail forced_state))"
  have b: "test_in_progress ?b" "test_failed ?b" "\<not> test_expect_fail ?b"
    "test_count ?b = 0" "test_passed_count ?b = 0"
    using test_state_facts
    by (simp_all add: cspec_error_fn_def cspec_expect_to_fail_def forced_state_def)
  have eb: "end_checks ?b = Inr (?b\<lparr> test_count := 1 \<rparr>)"
    using b by (simp add: end_checks_def)
  have 3: "end_counts ?b = Inr (1, 0)"
    using end_counts_returns[OF b(1) eb] b by (simp add: end_passes_def)
  let ?c = "fst (cspec_memory_malloc_null True to_fail_state)"
  have c0: "?c = to_fail_state\<lparr> memory_malloc_fail := M_FAIL_ONCE \<rparr>"
    using to_fail_facts
    by (simp add: cspec_memory_malloc_null_def memory_directive_warning_def)
  have c: "test_in_progress ?c" "\<not> test_failed ?c" "test_expect_fail ?c"
    "test_count ?c = 0" "test_passed_count ?c = 0" "unmet_request ?c"
    "\<not> memory_error ?c" "\<not> memory_expect_error ?c"
    unfolding c0 using to_fail_facts by (simp_all add: unmet_request_def)
  have "end_checks ?c =
     Inr ((if unmet_request ?c then cspec_error_fn After_fail_never_called ?c else ?c)
            \<lparr> test_count := test_count ?c + 1 \<rparr>)"
    by (rule end_checks_no_records) (use to_fail_facts in \<open>simp_all add: c0\<close>)
  then have ec: "end_checks ?c =
     Inr ((cspec_error_fn After_fail_never_called ?c)\<lparr> test_count := 1 \<rparr>)"
    using c by simp
  have 4: "end_counts ?c = Inr (1, 1)"
    using end_counts_returns[OF c(1) ec] c by (simp add: end_passes_def cspec_error_fn_def)
  show ?thesis using s 1 2 3 4 by simp
qed

text \<open>
  Claim C3, amended. Take a test that declared \<^verbatim>\<open>expect(to_fail)\<close>: it called the
  directive in a state \<open>s0\<close> with the flag clear, and the flag and the option \<^verbatim>\<open>-f\<close>
  are at \<^verbatim>\<open>_cspec_end\<close> what the directive left. The failed flag is set at the decision
  exactly when it was set during the run (an assertion failure) or the final checks raise
  the error for a requested allocation failure that never happened; a memory error does
  not set it. Without \<^verbatim>\<open>-f\<close> the test is counted as passed exactly when the failed flag
  is set and the memory error flag equals the memory expectation flag; with \<^verbatim>\<open>-f\<close>,
  exactly when the failed flag is clear and the memory flags agree. In every case the
  test is counted as run. (All this when the final checks return; when they stop with a
  fault, so does the call.)
\<close>

theorem C3_expect_fail_amended:
  assumes "test_in_progress s"
    and "\<not> test_expect_fail s0"
    and "test_expect_fail s = test_expect_fail (fst (cspec_expect_to_fail s0))"
    and "param_no_expect_fail s = param_no_expect_fail s0"
  shows "case end_checks s of
           Inl f \<Rightarrow> end_counts s = Inl f
         | Inr e \<Rightarrow>
             (test_failed e \<longleftrightarrow> test_failed s \<or> (param_memory_test s \<and> unmet_request s))
             \<and> (memory_error s \<longrightarrow> memory_error e)
             \<and> (test_failed s \<or> \<not> param_memory_test s \<longrightarrow> memory_error e = memory_error s)
             \<and> end_counts s =
                 Inr (test_count s + 1,
                      if (if param_no_expect_fail s then \<not> test_failed e else test_failed e)
                         \<and> memory_error e = memory_expect_error s
                      then test_passed_count s + 1 else test_passed_count s)"
proof (cases "end_checks s")
  case (Inl f)
  then show ?thesis using assms(1) by (simp add: end_counts_fault)
next
  case (Inr e)
  have flag: "test_expect_fail s = (\<not> param_no_expect_fail s)"
    using assms(2,3,4) by (simp add: cspec_expect_to_fail_def)
  have 1: "test_failed e \<longleftrightarrow> test_failed s \<or> (param_memory_test s \<and> unmet_request s)"
    using Inr assms(1) by (rule end_checks_failed)
  have 2: "memory_error s \<longrightarrow> memory_error e"
    using end_checks_fields(10)[OF Inr] by simp
  have 3: "test_failed s \<or> \<not> param_memory_test s \<longrightarrow> memory_error e = memory_error s"
    using Inr by (auto simp: end_checks_cases)
  have "end_passes e \<longleftrightarrow>
      (if param_no_expect_fail s then \<not> test_failed e else test_failed e)
      \<and> memory_error e = memory_expect_error s"
    using end_checks_fields(2,3)[OF Inr] flag by (auto simp: end_passes_def)
  then have 4: "end_counts s =
                 Inr (test_count s + 1,
                      if (if param_no_expect_fail s then \<not> test_failed e else test_failed e)
                         \<and> memory_error e = memory_expect_error s
                      then test_passed_count s + 1 else test_passed_count s)"
    using end_counts_returns[OF assms(1) Inr] by simp
  show ?thesis unfolding Inr using 1 2 3 4 by simp
qed

theorem C3_expect_fail_amended_witness:
  "test_in_progress (cspec_error_fn (Test_issue ''it fails'') to_fail_state)
   \<and> \<not> test_expect_fail test_state
   \<and> test_expect_fail (cspec_error_fn (Test_issue ''it fails'') to_fail_state)
       = test_expect_fail (fst (cspec_expect_to_fail test_state))
   \<and> param_no_expect_fail (cspec_error_fn (Test_issue ''it fails'') to_fail_state)
       = param_no_expect_fail test_state
   \<and> end_counts (cspec_error_fn (Test_issue ''it fails'') to_fail_state) = Inr (1, 1)"
proof -
  let ?s = "cspec_error_fn (Test_issue ''it fails'') to_fail_state"
  have h: "test_in_progress ?s" "\<not> test_expect_fail test_state"
    "test_expect_fail ?s = test_expect_fail (fst (cspec_expect_to_fail test_state))"
    "param_no_expect_fail ?s = param_no_expect_fail test_state"
    using to_fail_facts test_state_facts
    by (simp_all add: cspec_error_fn_def to_fail_state_def cspec_expect_to_fail_def)
  have f: "test_failed ?s" "\<not> memory_error ?s" "\<not> memory_expect_error ?s"
    "test_count ?s = 0" "test_passed_count ?s = 0" "\<not> param_no_expect_fail ?s"
    using to_fail_facts test_state_facts
    by (simp_all add: cspec_error_fn_def to_fail_state_def cspec_expect_to_fail_def)
  have e: "end_checks ?s = Inr (?s\<lparr> test_count := 1 \<rparr>)"
    using f by (simp add: end_checks_def)
  show ?thesis
    using C3_expect_fail_amended[OF h] h f unfolding e by simp
qed





subsection \<open>Allocation in the sandbox\<close>

lemma error_mem_arr [simp]: "memory_arr (cspec_error_mem msg s) = memory_arr s"
  by (simp add: cspec_error_mem_def)

lemma the_table_Some: "memory_records s = Some arr \<Longrightarrow> the_table s = arr"
  by (simp add: the_table_def)

lemma malloc_success:
  assumes "memory_records s = Some arr" "test_in_function s" "0 < n"
    and "fail_level (memory_malloc_fail s) < 2"
    and "memory_ptr s + 14 + n < 4082"
    and "memory_records_size s < memory_records_capacity s"
    and "length arr = memory_records_capacity s"
    and "preceding_fence_ok s = Inr True"
  shows "cspec_malloc s n =
    Inr (s\<lparr> memory_count_mallocs := memory_count_mallocs s + 1,
            memory_records_size := memory_records_size s + 1,
            memory_records := Some (arr[memory_records_size s :=
               Some \<lparr> size_r = n, block = 16 + int (memory_ptr s), is_free = False \<rparr>]),
            memory_arr :=
              cspec_memset
                (cspec_memset
                  (cspec_memset (memory_arr s) (16 + int (memory_ptr s)) chr_b 7)
                  (23 + int (memory_ptr s)) chr_N n)
                (23 + int (memory_ptr s) + int n) chr_e 7,
            memory_ptr := memory_ptr s + 14 + n \<rparr>,
         Some (23 + int (memory_ptr s)))"
proof -
  have nx: "(memory_ptr s + 14 + n) mod 2 ^ 64 = memory_ptr s + 14 + n"
    using assms(5) by simp
  have "preceding_fence_ok (s\<lparr>memory_count_mallocs := memory_count_mallocs s + 1,
      memory_records_size := Suc (memory_records_size s)\<rparr>) = preceding_fence_ok s"
    by (simp add: preceding_fence_ok_def)
  then have pf: "preceding_fence_ok (s\<lparr>memory_count_mallocs := memory_count_mallocs s + 1,
      memory_records_size := Suc (memory_records_size s)\<rparr>) = Inr True"
    using assms(8) by simp
  show ?thesis
    using assms(1-7) pf
    by (simp add: cspec_malloc_def grow_records_def Let_def sizes in_array_def nx add.commute
          the_table_def)
qed


lemma free_found:
  assumes "memory_records s = Some arr" "test_in_function s"
    and "16 \<le> a" "a < 4112"
    and "bsearch a arr 0 (memory_records_size s) = Inr (Some (i, r))"
    and "in_array (block r) (memory_size_fence * 2 + size_r r)"
    and "ok \<longleftrightarrow> (\<forall>j < 7. memory_arr s (block r + int j) = chr_b
                      \<and> memory_arr s (block r + int j + 7 + int (size_r r)) = chr_e)"
  shows "cspec_free s (Some a) =
    Inr ((if \<not> ok
          then cspec_error_mem Free_broken_fence
                 (if is_free r then cspec_error_mem Free_already_freed s else s)
          else (if is_free r then cspec_error_mem Free_already_freed s else s))
         \<lparr> memory_arr := cspec_memset (memory_arr s) (block r + 7) chr_F (size_r r),
            memory_records := Some (arr[i := Some (r\<lparr> is_free := True \<rparr>)]),
            memory_count_frees := memory_count_frees s + 1 \<rparr>)"
proof -
  have w: "in_array (block r + int memory_size_fence) (size_r r)"
    using assms(6) by (auto simp: in_array_def sizes)
  have fence: "memory_check_fence (memory_arr s) r = Inr ok"
    using check_fence_in_array[OF assms(6), of "memory_arr s"] assms(7) by simp
  show ?thesis
    using assms(1-5) w fence
    by (simp add: cspec_free_def Let_def sizes the_table_def cspec_error_mem_def)
qed





subsection \<open>Freeing\<close>

lemma bsearch_sound:
  "bsearch key recs l u = Inr (Some (i, r))
     \<Longrightarrow> l \<le> i \<and> i < u \<and> table_entry recs i = Some r \<and> block r + 7 = key"
proof (induction key recs l u rule: bsearch.induct)
  case (1 key recs l u)
  show ?case
  proof (cases "l < u")
    case False
    with "1.prems" show ?thesis by (simp add: bsearch.simps[of key recs l u])
  next
    case True
    let ?idx = "(l + u) div 2"
    have bounds: "l \<le> ?idx" "?idx < u" using True by auto
    obtain m where m: "table_entry recs ?idx = Some m"
      using "1.prems" True by (cases "table_entry recs ?idx")
        (simp_all add: bsearch.simps[of key recs l u])
    let ?c = "memory_record_compare key m"
    consider "?c < 0" | "\<not> ?c < 0" "?c > 0" | "\<not> ?c < 0" "\<not> ?c > 0" by blast
    then show ?thesis
    proof cases
      case 1
      then have "bsearch key recs l ?idx = Inr (Some (i, r))"
        using "1.prems" True m by (simp add: bsearch.simps[of key recs l u])
      from "1.IH"(1)[OF True m 1 this] bounds show ?thesis by simp
    next
      case 2
      then have "bsearch key recs (?idx + 1) u = Inr (Some (i, r))"
        using "1.prems" True m by (simp add: bsearch.simps[of key recs l u])
      from "1.IH"(2)[OF True m 2 this] bounds show ?thesis by simp
    next
      case 3
      then have "i = ?idx" "r = m"
        using "1.prems" True m by (simp_all add: bsearch.simps[of key recs l u])
      moreover have "block m + 7 = key"
        using 3 by (simp add: memory_record_compare_def Let_def sizes split: if_splits)
      ultimately show ?thesis using bounds m by simp
    qed
  qed
qed

lemma bsearch_written:
  assumes "\<And>j. l \<le> j \<Longrightarrow> j < u \<Longrightarrow> table_entry recs j \<noteq> None"
  shows "\<exists>res. bsearch key recs l u = Inr res"
  using assms
proof (induction key recs l u rule: bsearch.induct)
  case (1 key recs l u)
  show ?case
  proof (cases "l < u")
    case False
    then show ?thesis by (simp add: bsearch.simps[of key recs l u])
  next
    case True
    let ?idx = "(l + u) div 2"
    have bounds: "l \<le> ?idx" "?idx < u" using True by auto
    obtain m where m: "table_entry recs ?idx = Some m"
      using "1.prems"[OF bounds] by auto
    let ?c = "memory_record_compare key m"
    consider "?c < 0" | "\<not> ?c < 0" "?c > 0" | "\<not> ?c < 0" "\<not> ?c > 0" by blast
    then show ?thesis
    proof cases
      case 1
      have "\<exists>res. bsearch key recs l ?idx = Inr res"
        using "1.IH"(1)[OF True m 1] "1.prems" bounds by simp
      then show ?thesis using 1 True m by (simp add: bsearch.simps[of key recs l u])
    next
      case 2
      have "\<exists>res. bsearch key recs (?idx + 1) u = Inr res"
        using "1.IH"(2)[OF True m 2] "1.prems" bounds by simp
      then show ?thesis using 2 True m by (simp add: bsearch.simps[of key recs l u])
    next
      case 3
      then show ?thesis using True m by (simp add: bsearch.simps[of key recs l u])
    qed
  qed
qed

lemma bsearch_complete:
  assumes "\<And>j. l \<le> j \<Longrightarrow> j < u \<Longrightarrow> table_entry recs j = Some (g j)"
    and "\<And>j k. l \<le> j \<Longrightarrow> j < k \<Longrightarrow> k < u \<Longrightarrow> block (g j) < block (g k)"
    and "l \<le> i" "i < u" "block (g i) + 7 = key"
  shows "bsearch key recs l u = Inr (Some (i, g i))"
  using assms
proof (induction key recs l u rule: bsearch.induct)
  case (1 key recs l u)
  have lu: "l < u" using "1.prems"(3,4) by simp
  let ?idx = "(l + u) div 2"
  have bounds: "l \<le> ?idx" "?idx < u" using lu by auto
  have m: "table_entry recs ?idx = Some (g ?idx)" using "1.prems"(1)[OF bounds] .
  let ?c = "memory_record_compare key (g ?idx)"
  have ent: "table_entry recs j = Some (g j)" if "l \<le> j" "j < u" for j
    using "1.prems"(1) that by blast
  have mono: "block (g j) < block (g k)" if "l \<le> j" "j < k" "k < u" for j k
    using "1.prems"(2) that by blast
  consider "?c < 0" | "\<not> ?c < 0" "?c > 0" | "\<not> ?c < 0" "\<not> ?c > 0" by blast
  then show ?case
  proof cases
    case 1
    then have "key < block (g ?idx) + 7"
      by (simp add: memory_record_compare_def Let_def sizes split: if_splits)
    then have lt: "block (g i) < block (g ?idx)" using "1.prems"(5) by simp
    have "i < ?idx"
    proof (rule ccontr)
      assume "\<not> i < ?idx"
      then have "?idx = i \<or> ?idx < i" by auto
      then show False
        using lt mono[of ?idx i] bounds "1.prems"(4) by auto
    qed
    then have "bsearch key recs l ?idx = Inr (Some (i, g i))"
      using "1.IH"(1)[OF lu m 1] ent mono bounds "1.prems"(3,5) by simp
    then show ?thesis
      using 1 lu m by (simp add: bsearch.simps[of key recs l u])
  next
    case 2
    then have "key > block (g ?idx) + 7"
      by (simp add: memory_record_compare_def Let_def sizes split: if_splits)
    then have lt: "block (g ?idx) < block (g i)" using "1.prems"(5) by simp
    have "?idx < i"
    proof (rule ccontr)
      assume "\<not> ?idx < i"
      then have "?idx = i \<or> i < ?idx" by auto
      then show False
        using lt mono[of i ?idx] bounds "1.prems"(3) by auto
    qed
    then have "bsearch key recs (?idx + 1) u = Inr (Some (i, g i))"
      using "1.IH"(2)[OF lu m 2] ent mono bounds "1.prems"(4,5) by simp
    then show ?thesis
      using 2 lu m by (simp add: bsearch.simps[of key recs l u])
  next
    case 3
    then have eq: "block (g ?idx) + 7 = key"
      by (simp add: memory_record_compare_def Let_def sizes split: if_splits)
    have "i = ?idx"
    proof (rule ccontr)
      assume "i \<noteq> ?idx"
      then have "i < ?idx \<or> ?idx < i" by auto
      then show False
        using eq "1.prems"(5) mono[of i ?idx] mono[of ?idx i] bounds "1.prems"(3,4) by auto
    qed
    then show ?thesis
      using 3 lu m by (simp add: bsearch.simps[of key recs l u])
  qed
qed

text \<open>
  \<^verbatim>\<open>cspec_free\<close> during a test, in a state where every entry in use has been written and
  the entries are in ascending address order (\<open>rs\<close> are the records in use):
  \<^verbatim>\<open>cspec_free(NULL)\<close> changes nothing; a pointer outside the usable range of the arena
  raises the invalid-free error (out of bounds) and nothing else; a pointer inside it
  that is the payload start of no record raises the invalid-free error (not a malloc
  result) and nothing else.
\<close>

lemma free_invalid:
  assumes "memory_records s = Some arr" "test_in_function s"
    and use: "records_in_use s = map Some rs"
  shows "cspec_free s None = Inr s"
    and "a < memory \<or> memory + int memory_size_max \<le> a \<Longrightarrow>
           cspec_free s (Some a) = Inr (cspec_error_mem Free_out_of_bounds s)"
    and "memory \<le> a \<Longrightarrow> a < memory + int memory_size_max
         \<Longrightarrow> \<forall>r \<in> set rs. block r + int memory_size_fence \<noteq> a
         \<Longrightarrow> cspec_free s (Some a) = Inr (cspec_error_mem Free_not_malloc_result s)"
proof -
  show "cspec_free s None = Inr s"
    using assms(1,2) by (simp add: cspec_free_def)
  show "cspec_free s (Some a) = Inr (cspec_error_mem Free_out_of_bounds s)"
    if "a < memory \<or> memory + int memory_size_max \<le> a"
    using assms(1,2) that by (auto simp: cspec_free_def)
  have len: "length rs = memory_records_size s"
    using arg_cong[OF use, of length] by (simp add: records_in_use_def)
  have ent: "table_entry arr j = Some (rs ! j)" if "j < memory_records_size s" for j
  proof -
    have "records_in_use s ! j = table_entry arr j"
      using that assms(1) by (simp add: records_in_use_def the_table_def)
    then show ?thesis using use that len by simp
  qed
  show "cspec_free s (Some a) = Inr (cspec_error_mem Free_not_malloc_result s)"
    if h: "memory \<le> a" "a < memory + int memory_size_max"
      "\<forall>r \<in> set rs. block r + int memory_size_fence \<noteq> a"
  proof -
    obtain res where res: "bsearch a arr 0 (memory_records_size s) = Inr res"
      using bsearch_written[of 0 "memory_records_size s" arr a] ent by auto
    have "res = None"
    proof (cases res)
      case None
      then show ?thesis .
    next
      case (Some x)
      obtain j r where x: "x = (j, r)" by (cases x)
      from bsearch_sound[OF res[unfolded Some x]]
      have j: "j < memory_records_size s" "table_entry arr j = Some r" "block r + 7 = a"
        by simp_all
      have "r = rs ! j" using ent[OF j(1)] j(2) by simp
      then have "r \<in> set rs" using j(1) len by simp
      with h(3) j(3) show ?thesis by (auto simp: sizes)
    qed
    then show ?thesis
      using assms(1,2) h(1,2) res by (simp add: cspec_free_def the_table_def)
  qed
qed

text \<open>
  In such a state, for the payload start of the record \<open>i\<close> in use, the call raises the
  double-free error exactly when the record is already marked free and the corruption
  error exactly when one of the fourteen fence bytes of the record is not the one
  \<^verbatim>\<open>cspec_malloc\<close> wrote; in every case it fills the payload with \<^verbatim>\<open>'F'\<close>, marks the record
  freed and adds one to the free counter.
\<close>

lemma free_record:
  assumes "memory_records s = Some arr" "test_in_function s"
    and use: "records_in_use s = map Some rs"
    and srt: "sorted_wrt (\<lambda>x y. block x < block y) rs"
    and i: "i < length rs" "block (rs ! i) + int memory_size_fence = a"
    and a: "memory \<le> a" "a < memory + int memory_size_max"
    and inside: "in_array (block (rs ! i)) (memory_size_fence * 2 + size_r (rs ! i))"
    and ok: "ok \<longleftrightarrow> (\<forall>j < 7. memory_arr s (block (rs ! i) + int j) = chr_b
                \<and> memory_arr s (block (rs ! i) + int j + 7 + int (size_r (rs ! i))) = chr_e)"
  shows "cspec_free s (Some a) =
    Inr ((if \<not> ok
          then cspec_error_mem Free_broken_fence
                 (if is_free (rs ! i) then cspec_error_mem Free_already_freed s else s)
          else (if is_free (rs ! i) then cspec_error_mem Free_already_freed s else s))
         \<lparr> memory_arr := cspec_memset (memory_arr s) a chr_F (size_r (rs ! i)),
            memory_records := Some (arr[i := Some ((rs ! i)\<lparr> is_free := True \<rparr>)]),
            memory_count_frees := memory_count_frees s + 1 \<rparr>)"
proof -
  have len: "length rs = memory_records_size s"
    using arg_cong[OF use, of length] by (simp add: records_in_use_def)
  have ent: "table_entry arr j = Some (rs ! j)" if "0 \<le> j" "j < memory_records_size s" for j
  proof -
    have "records_in_use s ! j = table_entry arr j"
      using that assms(1) by (simp add: records_in_use_def the_table_def)
    then show ?thesis using use that len by simp
  qed
  have mono: "block (rs ! j) < block (rs ! k)"
    if "0 \<le> j" "j < k" "k < memory_records_size s" for j k
    using srt that len by (simp add: sorted_wrt_iff_nth_less)
  have key: "block (rs ! i) + 7 = a" using i(2) by (simp add: sizes)
  have bs: "bsearch a arr 0 (memory_records_size s) = Inr (Some (i, rs ! i))"
    using bsearch_complete[of 0 "memory_records_size s" arr "\<lambda>j. rs ! j" i a, OF ent mono _ _ key]
      i(1) len by simp
  have b: "16 \<le> a" "a < 4112" using a by (simp_all add: sizes)
  show ?thesis
    unfolding free_found[OF assms(1,2) b bs inside ok] key ..
qed

subsection \<open>Reallocation\<close>

lemma one_block_malloc:
  "cspec_malloc test_state 5 = Inr (one_block_state, Some 23)"
  "one_block_state = test_state\<lparr> memory_count_mallocs := 1,
            memory_records_size := 1,
            memory_records := Some ((replicate 16 None)
               [0 := Some \<lparr> size_r = 5, block = 16, is_free = False \<rparr>]),
            memory_arr :=
              cspec_memset (cspec_memset (cspec_memset (memory_arr test_state) 16 chr_b 7)
                  23 chr_N 5) 28 chr_e 7,
            memory_ptr := 19 \<rparr>"
proof -
  have "cspec_malloc test_state 5 = Inr (test_state\<lparr> memory_count_mallocs := 1,
            memory_records_size := 1,
            memory_records := Some ((replicate 16 None)
               [0 := Some \<lparr> size_r = 5, block = 16, is_free = False \<rparr>]),
            memory_arr :=
              cspec_memset (cspec_memset (cspec_memset (memory_arr test_state) 16 chr_b 7)
                  23 chr_N 5) 28 chr_e 7,
            memory_ptr := 19 \<rparr>, Some 23)"
    using malloc_success[OF test_state_table(1) test_state_facts(2), of 5]
      test_state_facts test_state_table
    by (simp add: preceding_fence_ok_def)
  then show "cspec_malloc test_state 5 = Inr (one_block_state, Some 23)"
    and "one_block_state = test_state\<lparr> memory_count_mallocs := 1,
            memory_records_size := 1,
            memory_records := Some ((replicate 16 None)
               [0 := Some \<lparr> size_r = 5, block = 16, is_free = False \<rparr>]),
            memory_arr :=
              cspec_memset (cspec_memset (cspec_memset (memory_arr test_state) 16 chr_b 7)
                  23 chr_N 5) 28 chr_e 7,
            memory_ptr := 19 \<rparr>"
    by (simp_all add: one_block_state_def)
qed

lemma one_block_facts:
  "memory_records one_block_state
     = Some (Some \<lparr> size_r = 5, block = 16, is_free = False \<rparr> # replicate 15 None)"
  "memory_records_size one_block_state = 1" "memory_records_capacity one_block_state = 16"
  "test_in_function one_block_state" "test_in_progress one_block_state"
  "memory_ptr one_block_state = 19" "memory_malloc_fail one_block_state = M_NORMAL"
  "events one_block_state = []" "\<not> memory_expect_error one_block_state"
  "\<not> memory_error one_block_state" "memory_count_frees one_block_state = 0"
  "memory_count_mallocs one_block_state = 1"
  "records_in_use one_block_state = [Some \<lparr> size_r = 5, block = 16, is_free = False \<rparr>]"
  using test_state_facts test_state_table
  by (simp_all add: one_block_malloc(2) records_in_use_def the_table_def table_entry_def
        numeral_eq_Suc)

lemma one_block_arr:
  "memory_arr one_block_state x =
     (if 16 \<le> x \<and> x < 23 then chr_b else if 23 \<le> x \<and> x < 28 then chr_N
      else if 28 \<le> x \<and> x < 35 then chr_e else memory_arr test_state x)"
  by (simp add: one_block_malloc(2) cspec_memset_apply)

lemma one_block_fence:
  "memory_check_fence (memory_arr one_block_state) \<lparr> size_r = 5, block = 16, is_free = False \<rparr>
     = Inr True"
proof -
  have "in_array (block \<lparr> size_r = 5, block = 16, is_free = False \<rparr>)
          (memory_size_fence * 2 + size_r \<lparr> size_r = 5, block = 16, is_free = False \<rparr>)"
    by (simp add: in_array_def sizes)
  from check_fence_in_array[OF this, of "memory_arr one_block_state"]
  show ?thesis by (simp add: one_block_arr)
qed

lemma cspec_memcpy_apply:
  assumes "t + int n \<le> s \<or> s + int n \<le> t"
  shows "cspec_memcpy m s t n x = (if s \<le> x \<and> x < s + int n then m (t + (x - s)) else m x)"
  using assms
proof (induction n arbitrary: m s t)
  case 0
  then show ?case by auto
next
  case (Suc n)
  have d: "t + 1 + int n \<le> s + 1 \<or> s + 1 + int n \<le> t + 1" using Suc.prems by auto
  show ?case
    using Suc.prems by (auto simp: Suc.IH[OF d])
qed

lemma preceding_fence_intact:
  assumes "7 \<le> memory_ptr s" "memory_ptr s \<le> 4096"
    and "\<And>j. j < 7 \<Longrightarrow> memory_arr s (9 + int (memory_ptr s) + int j) = chr_e"
  shows "preceding_fence_ok s = Inr True"
proof -
  have a: "in_array (memory + int (memory_ptr s - memory_size_fence)) memory_size_fence"
    using assms(1,2) by (simp add: in_array_def sizes)
  have e: "memory + int (memory_ptr s - memory_size_fence) + int j = 9 + int (memory_ptr s) + int j"
    for j using assms(1) by (simp add: sizes)
  show ?thesis
    using assms(1,3) fence_loop_in_array[OF a, of "memory_arr s"]
    by (simp add: preceding_fence_ok_def e) (simp add: sizes)
qed

lemma two_block_malloc:
  "cspec_malloc one_block_state 4 = Inr (two_block_state, Some 42)"
  "two_block_state = one_block_state\<lparr> memory_count_mallocs := 2,
            memory_records_size := 2,
            memory_records := Some (Some \<lparr> size_r = 5, block = 16, is_free = False \<rparr>
               # Some \<lparr> size_r = 4, block = 35, is_free = False \<rparr>
               # replicate 14 None),
            memory_arr :=
              cspec_memset (cspec_memset (cspec_memset (memory_arr one_block_state) 35 chr_b 7)
                  42 chr_N 4) 46 chr_e 7,
            memory_ptr := 37 \<rparr>"
proof -
  have pf: "preceding_fence_ok one_block_state = Inr True"
    by (rule preceding_fence_intact) (simp_all add: one_block_facts one_block_arr)
  have "cspec_malloc one_block_state 4 = Inr (one_block_state\<lparr> memory_count_mallocs := 2,
            memory_records_size := 2,
            memory_records := Some (Some \<lparr> size_r = 5, block = 16, is_free = False \<rparr>
               # Some \<lparr> size_r = 4, block = 35, is_free = False \<rparr>
               # replicate 14 None),
            memory_arr :=
              cspec_memset (cspec_memset (cspec_memset (memory_arr one_block_state) 35 chr_b 7)
                  42 chr_N 4) 46 chr_e 7,
            memory_ptr := 37 \<rparr>, Some 42)"
    using malloc_success[OF one_block_facts(1) one_block_facts(4), of 4] pf one_block_facts
    by (simp add: numeral_eq_Suc)
  then show "cspec_malloc one_block_state 4 = Inr (two_block_state, Some 42)"
    and "two_block_state = one_block_state\<lparr> memory_count_mallocs := 2,
            memory_records_size := 2,
            memory_records := Some (Some \<lparr> size_r = 5, block = 16, is_free = False \<rparr>
               # Some \<lparr> size_r = 4, block = 35, is_free = False \<rparr>
               # replicate 14 None),
            memory_arr :=
              cspec_memset (cspec_memset (cspec_memset (memory_arr one_block_state) 35 chr_b 7)
                  42 chr_N 4) 46 chr_e 7,
            memory_ptr := 37 \<rparr>"
    by (simp_all add: two_block_state_def)
qed

lemma two_block_facts:
  "memory_records two_block_state
     = Some (Some \<lparr> size_r = 5, block = 16, is_free = False \<rparr>
               # Some \<lparr> size_r = 4, block = 35, is_free = False \<rparr>
               # replicate 14 None)"
  "memory_records_size two_block_state = 2" "memory_records_capacity two_block_state = 16"
  "test_in_function two_block_state" "test_in_progress two_block_state"
  "memory_ptr two_block_state = 37" "memory_malloc_fail two_block_state = M_NORMAL"
  "events two_block_state = []" "memory_count_frees two_block_state = 0"
  "memory_count_mallocs two_block_state = 2"
  using one_block_facts by (simp_all add: two_block_malloc(2))

lemma two_block_arr:
  "memory_arr two_block_state x =
     (if 16 \<le> x \<and> x < 23 then chr_b else if 23 \<le> x \<and> x < 28 then chr_N
      else if 28 \<le> x \<and> x < 35 then chr_e
      else if 35 \<le> x \<and> x < 42 then chr_b else if 42 \<le> x \<and> x < 46 then chr_N
      else if 46 \<le> x \<and> x < 53 then chr_e else memory_arr test_state x)"
  by (simp add: two_block_malloc(2) cspec_memset_apply one_block_arr)

text \<open>
  Claim C5 against the code. After \<^verbatim>\<open>p1 = malloc(5)\<close> and \<^verbatim>\<open>p2 = malloc(4)\<close>, the call
  \<^verbatim>\<open>realloc(p1, 20)\<close> returns a new block, but what it copies into it starts at the
  leading fence of the last record (the one of \<open>p2\<close>), not at the payload of \<open>p1\<close>; and it
  frees the record of \<open>p2\<close>, leaving the one of \<open>p1\<close> allocated. No error is raised.
\<close>

theorem C5_realloc_earlier_record:
  "\<exists>s'. cspec_malloc test_state 5 = Inr (one_block_state, Some 23)
      \<and> cspec_malloc one_block_state 4 = Inr (two_block_state, Some 42)
      \<and> cspec_realloc two_block_state (Some 23) 20 = Inr (s', Some 60)
      \<and> memory_arr two_block_state 23 = chr_N
      \<and> memory_arr s' 60 = chr_b \<and> chr_b \<noteq> chr_N
      \<and> records_in_use s' = [Some \<lparr> size_r = 5, block = 16, is_free = False \<rparr>,
                               Some \<lparr> size_r = 4, block = 35, is_free = True \<rparr>,
                               Some \<lparr> size_r = 20, block = 53, is_free = False \<rparr>]
      \<and> events s' = []"
proof -
  let ?r1 = "\<lparr> size_r = 5, block = 16, is_free = False \<rparr>"
  let ?r2 = "\<lparr> size_r = 4, block = 35, is_free = False \<rparr>"
  let ?r3 = "\<lparr> size_r = 20, block = 53, is_free = False \<rparr>"
  let ?arr3 = "Some ?r1 # Some ?r2 # Some ?r3 # replicate 13 None"
  define m3 where "m3 = cspec_memset (cspec_memset (cspec_memset (memory_arr two_block_state)
        53 chr_b 7) 60 chr_N 20) 80 chr_e 7"
  define s1 where "s1 = two_block_state\<lparr> memory_count_mallocs := 3,
            memory_records_size := 3,
            memory_records := Some ?arr3,
            memory_arr := m3, memory_ptr := 71 \<rparr>"
  have pf: "preceding_fence_ok two_block_state = Inr True"
    by (rule preceding_fence_intact) (simp_all add: two_block_facts two_block_arr)
  have mal: "cspec_malloc two_block_state 20 = Inr (s1, Some 60)"
    using malloc_success[OF two_block_facts(1) two_block_facts(4), of 20] pf two_block_facts
    by (simp add: numeral_eq_Suc s1_def m3_def)
  define m4 where "m4 = cspec_memcpy m3 60 35 18"
  have m4: "m4 x = (if 60 \<le> x \<and> x < 78 then m3 (35 + (x - 60)) else m3 x)" for x
    unfolding m4_def by (subst cspec_memcpy_apply) simp_all
  have m3: "m3 x = (if 53 \<le> x \<and> x < 60 then chr_b else if 60 \<le> x \<and> x < 80 then chr_N
      else if 80 \<le> x \<and> x < 87 then chr_e else memory_arr two_block_state x)" for x
    by (simp add: m3_def cspec_memset_apply)
  define s2 where "s2 = s1\<lparr> memory_arr := m4 \<rparr>"
  have a: "memory_records s2 = Some ?arr3" "test_in_function s2"
    using two_block_facts by (simp_all add: s2_def s1_def)
  have sz: "memory_records_size s2 = 3" by (simp add: s2_def s1_def)
  have b: "bsearch 42 ?arr3 0 (memory_records_size s2) = Inr (Some (1, ?r2))"
    unfolding sz
    by (subst bsearch.simps) (simp add: memory_record_compare_def table_entry_def Let_def sizes)
  have d: "in_array (block ?r2) (memory_size_fence * 2 + size_r ?r2)"
    by (simp add: in_array_def sizes)
  have fence: "True \<longleftrightarrow> (\<forall>j < 7. memory_arr s2 (block ?r2 + int j) = chr_b
                      \<and> memory_arr s2 (block ?r2 + int j + 7 + int (size_r ?r2)) = chr_e)"
    by (simp add: s2_def m4 m3 two_block_arr)
  define s3 where "s3 = s2\<lparr> memory_arr := cspec_memset m4 42 chr_F 4,
      memory_records := Some (Some ?r1 # Some (?r2\<lparr> is_free := True \<rparr>) # Some ?r3
                              # replicate 13 None),
      memory_count_frees := 1 \<rparr>"
  have p: "(16::int) \<le> 42" "(42::int) < 4112" by simp_all
  have g: "memory_arr s2 = m4" "memory_count_frees s2 = 0"
    using two_block_facts by (simp_all add: s2_def s1_def)
  have fr: "cspec_free s2 (Some 42) = Inr s3"
    unfolding free_found[OF a p b d fence] s3_def
    by (simp add: g)
  have "cspec_realloc two_block_state (Some 23) 20 = realloc_move two_block_state 1 20"
    using two_block_facts
    by (simp add: cspec_realloc_def Let_def sizes the_table_def table_entry_def)
  also have "\<dots> = Inr (s3, Some 60)"
  proof -
    have e: "table_entry (the_table s1) (Suc 0) = Some ?r2"
      by (simp add: s1_def the_table_def table_entry_def)
    have "s1\<lparr> memory_arr := cspec_memcpy (memory_arr s1) 60 (block ?r2)
                (size_r ?r2 + memory_size_fence * 2) \<rparr> = s2"
      by (simp add: s1_def s2_def m4_def sizes)
    moreover have "memory_records_capacity s1 = memory_records_capacity two_block_state"
      by (simp add: s1_def)
    ultimately show ?thesis
      using fr by (simp add: realloc_move_def mal e in_array_def sizes)
  qed
  finally have re: "cspec_realloc two_block_state (Some 23) 20 = Inr (s3, Some 60)" .
  have 1: "memory_arr two_block_state 23 = chr_N"
    by (simp add: two_block_arr)
  have 2: "memory_arr s3 60 = chr_b \<and> chr_b \<noteq> chr_N"
    by (simp add: s3_def cspec_memset_apply m4 m3 two_block_arr chars)
  have 3: "records_in_use s3 = [Some ?r1, Some \<lparr> size_r = 4, block = 35, is_free = True \<rparr>,
      Some ?r3]"
    by (simp add: records_in_use_def s3_def s2_def s1_def the_table_def table_entry_def
          numeral_eq_Suc)
  have 4: "events s3 = []"
    using two_block_facts by (simp add: s3_def s2_def s1_def)
  show ?thesis
    using one_block_malloc(1) two_block_malloc(1) re 1 2 3 4 by blast
qed

theorem C5_realloc_earlier_record_witness:
  "\<exists>s'. cspec_realloc two_block_state (Some 23) 20 = Inr (s', Some 60)
      \<and> memory_arr s' 60 = chr_b
      \<and> records_in_use s' = [Some \<lparr> size_r = 5, block = 16, is_free = False \<rparr>,
                               Some \<lparr> size_r = 4, block = 35, is_free = True \<rparr>,
                               Some \<lparr> size_r = 20, block = 53, is_free = False \<rparr>]"
  using C5_realloc_earlier_record by blast

text \<open>
  The branch of \<^verbatim>\<open>cspec_realloc\<close> that resizes in place, when the arena has the room. Let \<open>p\<close>
  be the payload of the last record in use, of size \<open>m\<close>, with intact fences and no forced
  failure armed, let \<open>n \<noteq> m\<close>, and let the block with its trailing fence end inside the
  arena before and after the call. Then \<^verbatim>\<open>cspec_realloc(p, n)\<close> returns \<open>p\<close>, the bytes at
  offsets below \<open>min m n\<close> are unchanged, and when growing the bytes at offsets \<open>m ..< n\<close>
  hold \<^verbatim>\<open>'N'\<close> (which is not zero) and the trailing fence stands at offset \<open>n\<close>; when
  shrinking, the fence stands at offset \<open>n\<close> and the bytes after it up to the old end of
  the block hold \<^verbatim>\<open>'X'\<close>.
\<close>

lemma realloc_in_place_fits:
  assumes "memory_records s = Some arr" "test_in_function s"
    and "memory_records_size s \<noteq> 0"
    and "table_entry arr (memory_records_size s - 1) = Some r"
    and "p = block r + int memory_size_fence" and "m = size_r r" and "m \<noteq> n"
    and "\<forall>j < 7. memory_arr s (block r + int j) = chr_b
                \<and> memory_arr s (block r + int j + 7 + int (size_r r)) = chr_e"
    and "fail_level (memory_malloc_fail s) < fail_level M_FAIL_ONCE"
    and "memory \<le> block r"
    and "p + int (max m n) + int memory_size_fence \<le> memory + int memory_size_max"
  shows "\<exists>s'. cspec_realloc s (Some p) n = Inr (s', Some p)
     \<and> (\<forall>k. k < min m n \<longrightarrow> memory_arr s' (p + int k) = memory_arr s (p + int k))
     \<and> (m < n \<longrightarrow> (\<forall>k. m \<le> k \<and> k < n \<longrightarrow> memory_arr s' (p + int k) = chr_N)
                  \<and> (\<forall>j. j < memory_size_fence \<longrightarrow> memory_arr s' (p + int n + int j) = chr_e))
     \<and> (n < m \<longrightarrow> (\<forall>j. j < memory_size_fence \<longrightarrow> memory_arr s' (p + int n + int j) = chr_e)
                  \<and> (\<forall>k. n + memory_size_fence \<le> k \<and> k < m + memory_size_fence
                         \<longrightarrow> memory_arr s' (p + int k) = chr_X))
     \<and> chr_N \<noteq> 0
     \<and> memory_records s' = Some (arr[memory_records_size s - 1 := Some (r\<lparr> size_r := n \<rparr>)])
     \<and> events s' = events s \<and> memory_error s' = memory_error s"
proof -
  have inside: "in_array (block r) (memory_size_fence * 2 + size_r r)"
    using assms(5,6,10,11) by (auto simp: in_array_def sizes)
  have fence: "memory_check_fence (memory_arr s) r = Inr True"
    using check_fence_in_array[OF inside, of "memory_arr s"] assms(8) by simp
  have e: "cspec_realloc s (Some p) n = realloc_in_place s (memory_records_size s - 1) r n"
    using assms(1-7,9) fence by (simp add: cspec_realloc_def Let_def the_table_def)
  show ?thesis
  proof (cases "m < n")
    case True
    have ia: "in_array (p + int n) memory_size_fence" "in_array (p + int m) (n - m)"
      using assms(5,10,11) True by (auto simp: in_array_def sizes)
    show ?thesis
      unfolding e using True ia assms(1,5,6)
      by (simp add: realloc_in_place_def Let_def cspec_memset_apply sizes chars the_table_def)
  next
    case False
    then have lt: "n < m" using assms(7) by simp
    have ia: "in_array (p + int n) memory_size_fence"
      "in_array (p + int n + int memory_size_fence) (m - n)"
      using assms(5,10,11) lt by (auto simp: in_array_def sizes)
    show ?thesis
      unfolding e using lt ia assms(1,5,6)
      by (simp add: realloc_in_place_def Let_def cspec_memset_apply sizes chars the_table_def)
  qed
qed

subsection \<open>Blocks that outgrow the arena, and the table after an overrun\<close>

lemma malloc_fence_broken:
  assumes "memory_records s = Some arr" "test_in_function s" "0 < n"
    and "fail_level (memory_malloc_fail s) < 2"
    and "memory_ptr s + 14 + n < 4082"
    and "memory_records_size s < memory_records_capacity s"
    and "7 \<le> memory_ptr s"
    and "memory_arr s (9 + int (memory_ptr s)) \<noteq> chr_e"
    and "memory_records_size s \<noteq> 0"
    and "table_entry arr (memory_records_size s - 1) \<noteq> None"
  shows "cspec_malloc s n =
    Inr (cspec_error_mem Malloc_preceding_fence
           (s\<lparr> memory_count_mallocs := memory_count_mallocs s + 1,
               memory_records_size := memory_records_size s + 1 \<rparr>), None)"
proof -
  have nx: "(memory_ptr s + 14 + n) mod 2 ^ 64 = memory_ptr s + 14 + n"
    using assms(5) by simp
  have a: "memory + int (memory_ptr s - memory_size_fence) = 9 + int (memory_ptr s)"
    using assms(7) by (simp add: sizes)
  have "in_array (9 + int (memory_ptr s)) 1"
    using assms(5) by (simp add: in_array_def sizes)
  then have "fence_loop (memory_arr s) (9 + int (memory_ptr s)) memory_size_fence = Inr False"
    using assms(8) by (simp add: sizes numeral_eq_Suc)
  then have pf: "preceding_fence_ok s = Inr False"
    using assms(7) by (simp add: preceding_fence_ok_def a) (simp add: sizes)
  have "preceding_fence_ok (s\<lparr>memory_count_mallocs := memory_count_mallocs s + 1,
      memory_records_size := Suc (memory_records_size s)\<rparr>) = preceding_fence_ok s"
    by (simp add: preceding_fence_ok_def)
  then have pf': "preceding_fence_ok (s\<lparr>memory_count_mallocs := memory_count_mallocs s + 1,
      memory_records_size := Suc (memory_records_size s)\<rparr>) = Inr False"
    using pf by simp
  show ?thesis
    using assms(1-6,9,10) pf'
    by (simp add: cspec_malloc_def grow_records_def Let_def sizes nx add.commute the_table_def)
qed

lemma smashed_facts:
  "store_byte one_block_state (23 + 5) 0 = Inr smashed_state"
  "memory_records smashed_state
     = Some (Some \<lparr> size_r = 5, block = 16, is_free = False \<rparr> # replicate 15 None)"
  "memory_records_size smashed_state = 1" "memory_records_capacity smashed_state = 16"
  "test_in_function smashed_state" "test_in_progress smashed_state"
  "memory_ptr smashed_state = 19" "memory_malloc_fail smashed_state = M_NORMAL"
  "events smashed_state = []" "\<not> memory_expect_error smashed_state"
  "memory_count_mallocs smashed_state = 1" "memory_arr smashed_state 28 = 0"
  using one_block_facts
  by (simp_all add: smashed_state_def store_byte_def in_array_def sizes)

lemma overrun_facts:
  "cspec_malloc smashed_state 4 = Inr (overrun_state, None)"
  "memory_records overrun_state
     = Some (Some \<lparr> size_r = 5, block = 16, is_free = False \<rparr> # replicate 15 None)"
  "memory_records_size overrun_state = 2"
  "records_in_use overrun_state = [Some \<lparr> size_r = 5, block = 16, is_free = False \<rparr>, None]"
  "events overrun_state = [Error_mem Malloc_preceding_fence True]"
  "test_in_function overrun_state" "test_in_progress overrun_state"
  "memory_count_mallocs overrun_state = 2" "memory_count_frees overrun_state = 0"
proof -
  have "table_entry (Some \<lparr> size_r = 5, block = 16, is_free = False \<rparr> # replicate 15 None)
          (memory_records_size smashed_state - 1) \<noteq> None"
    by (simp add: smashed_facts table_entry_def)
  from malloc_fence_broken[OF smashed_facts(2) smashed_facts(5) _ _ _ _ _ _ _ this, of 4]
  moreover have "Suc (Suc 0) = 2" by simp
  ultimately show "cspec_malloc smashed_state 4 = Inr (overrun_state, None)"
    by (simp add: smashed_facts overrun_state_def chars)
  show "memory_records overrun_state
     = Some (Some \<lparr> size_r = 5, block = 16, is_free = False \<rparr> # replicate 15 None)"
    "memory_records_size overrun_state = 2"
    "events overrun_state = [Error_mem Malloc_preceding_fence True]"
    "test_in_function overrun_state" "test_in_progress overrun_state"
    "memory_count_mallocs overrun_state = 2" "memory_count_frees overrun_state = 0"
    using smashed_facts one_block_facts
    by (simp_all add: overrun_state_def cspec_error_mem_def) (simp add: smashed_state_def)
  then show "records_in_use overrun_state
      = [Some \<lparr> size_r = 5, block = 16, is_free = False \<rparr>, None]"
    by (simp add: records_in_use_def the_table_def table_entry_def numeral_eq_Suc)
qed

text \<open>
  Claim C6 against the code. \<^verbatim>\<open>cspec_realloc\<close> grows the last block in place without
  asking whether the arena has room, which \<^verbatim>\<open>cspec_malloc\<close> asks before it hands out a
  block. After \<^verbatim>\<open>p = malloc(5)\<close> the call \<^verbatim>\<open>realloc(p, 5000)\<close> does not return \<open>p\<close> with the
  bytes the claim states: it writes the new fence past the end of \<^verbatim>\<open>_memory\<close>, where the
  program's behaviour is undefined; \<^verbatim>\<open>cspec_malloc\<close> refuses that size with the error for
  an exhausted arena. \<^verbatim>\<open>realloc(p, 4090)\<close>, which \<^verbatim>\<open>cspec_malloc\<close> refuses as well, stays
  inside the array and returns \<open>p\<close>, and has overwritten the barrier behind the arena.
  (Where the resized block ends inside the arena the branch does what the claim says:
  lemma \<open>realloc_in_place_fits\<close>.)
\<close>

theorem C6_realloc_ignores_arena_limit:
  "cspec_malloc test_state 5 = Inr (one_block_state, Some 23)
   \<and> records_in_use one_block_state = [Some \<lparr> size_r = 5, block = 16, is_free = False \<rparr>]
   \<and> memory_check_fence (memory_arr one_block_state)
         \<lparr> size_r = 5, block = 16, is_free = False \<rparr> = Inr True
   \<and> memory_malloc_fail one_block_state = M_NORMAL
   \<and> cspec_realloc one_block_state (Some 23) 5000 = Inl Stray_write
   \<and> cspec_malloc one_block_state 5000 =
        Inr (cspec_error_mem Malloc_out_of_space
               (one_block_state\<lparr> memory_expect_error := False \<rparr>), None)
   \<and> memory_arr one_block_state 4112 = byte_FF
   \<and> (\<exists>s'. cspec_realloc one_block_state (Some 23) 4090 = Inr (s', Some 23)
          \<and> memory_arr s' 4112 = chr_N)
   \<and> cspec_malloc one_block_state 4090 =
        Inr (cspec_error_mem Malloc_out_of_space
               (one_block_state\<lparr> memory_expect_error := False \<rparr>), None)"
proof -
  have e: "table_entry (the_table one_block_state) 0
      = Some \<lparr> size_r = 5, block = 16, is_free = False \<rparr>"
    by (simp add: one_block_facts the_table_def table_entry_def)
  have 1: "cspec_realloc one_block_state (Some 23) 5000 = Inl Stray_write"
    using one_block_facts one_block_fence e
    by (simp add: cspec_realloc_def Let_def realloc_in_place_def in_array_def sizes)
  have 2: "cspec_malloc one_block_state n =
        Inr (cspec_error_mem Malloc_out_of_space
               (one_block_state\<lparr> memory_expect_error := False \<rparr>), None)"
    if "n = 5000 \<or> n = 4090" for n
    using one_block_facts that by (auto simp: cspec_malloc_def Let_def sizes)
  have 3: "memory_arr one_block_state 4112 = byte_FF"
    by (simp add: one_block_arr test_state_arr)
  have 4: "\<exists>s'. cspec_realloc one_block_state (Some 23) 4090 = Inr (s', Some 23)
          \<and> memory_arr s' 4112 = chr_N"
    using one_block_facts one_block_fence e
    by (simp add: cspec_realloc_def Let_def realloc_in_place_def in_array_def sizes
          cspec_memset_apply)
  show ?thesis
    using one_block_malloc(1) one_block_facts(13,7) one_block_fence 1 2 3 4 by simp
qed

theorem C6_realloc_ignores_arena_limit_witness:
  "cspec_realloc one_block_state (Some 23) 5000 = Inl Stray_write
   \<and> memory_arr one_block_state 4112 = byte_FF"
  using C6_realloc_ignores_arena_limit by simp

text \<open>
  Claim C7 against the code. In a test, after \<^verbatim>\<open>p = malloc(5)\<close>, the write \<^verbatim>\<open>p[5] = 0\<close>
  (one byte past the block) and \<^verbatim>\<open>malloc(4)\<close>, the second \<^verbatim>\<open>malloc\<close> has reported the
  broken fence and returned \<^verbatim>\<open>NULL\<close>, and the table counts two entries of which it wrote
  one. \<open>p\<close> is the payload start of the first record, which is live and has a broken fence:
  the claim has \<^verbatim>\<open>free(p)\<close> raise the corruption error and free the record. The binary
  search of \<^verbatim>\<open>cspec_free\<close> starts at the second entry, the one never written, and what
  the call then does depends on what the real allocator left there. (In a state where
  every entry in use has been written and the entries ascend, the call does what the claim
  says: lemmas \<open>free_invalid\<close> and \<open>free_record\<close>.)
\<close>

theorem C7_free_after_overrun:
  "cspec_malloc test_state 5 = Inr (one_block_state, Some 23)
   \<and> store_byte one_block_state (23 + 5) 0 = Inr smashed_state
   \<and> cspec_malloc smashed_state 4 = Inr (overrun_state, None)
   \<and> events overrun_state = [Error_mem Malloc_preceding_fence True]
   \<and> memory_records_size overrun_state = 2
   \<and> records_in_use overrun_state
        = [Some \<lparr> size_r = 5, block = 16, is_free = False \<rparr>, None]
   \<and> memory_check_fence (memory_arr overrun_state)
        \<lparr> size_r = 5, block = 16, is_free = False \<rparr> = Inr False
   \<and> cspec_free overrun_state (Some 23) = Inl Unwritten_entry"
proof -
  have arr: "memory_arr overrun_state = (memory_arr one_block_state)(28 := 0)"
    by (simp add: overrun_state_def smashed_state_def)
  have "in_array (block \<lparr> size_r = 5, block = 16, is_free = False \<rparr>)
          (memory_size_fence * 2 + size_r \<lparr> size_r = 5, block = 16, is_free = False \<rparr>)"
    by (simp add: in_array_def sizes)
  from check_fence_in_array[OF this, of "memory_arr overrun_state"]
  have fence: "memory_check_fence (memory_arr overrun_state)
        \<lparr> size_r = 5, block = 16, is_free = False \<rparr> = Inr False"
    by (auto simp: arr one_block_arr chars intro!: exI[of _ 0])
  have "bsearch 23 (the_table overrun_state) 0 2 = Inl Unwritten_entry"
    by (subst bsearch.simps)
      (simp add: overrun_facts the_table_def table_entry_def)
  then have free: "cspec_free overrun_state (Some 23) = Inl Unwritten_entry"
    using overrun_facts by (simp add: cspec_free_def sizes)
  show ?thesis
    using one_block_malloc(1) smashed_facts(1) overrun_facts fence free by simp
qed

theorem C7_free_after_overrun_witness:
  "cspec_free overrun_state (Some 23) = Inl Unwritten_entry
   \<and> memory_records_size overrun_state = 2"
  using C7_free_after_overrun by simp

subsection \<open>The runner\<close>

lemma malloc_control:
  assumes "cspec_malloc s n = Inr (t, p)"
  shows "test_in_progress t = test_in_progress s \<and> test_current_line t = test_current_line s
    \<and> ctx_stack t = ctx_stack s \<and> ctx_stack_index t = ctx_stack_index s
    \<and> ctx_stack_top t = ctx_stack_top s"
proof -
  have g: "grow_records u = Some v \<Longrightarrow>
      test_in_progress v = test_in_progress u \<and> test_current_line v = test_current_line u
    \<and> ctx_stack v = ctx_stack u \<and> ctx_stack_index v = ctx_stack_index u
    \<and> ctx_stack_top v = ctx_stack_top u" for u v
    by (auto simp: grow_records_def Let_def split: if_splits)
  have e: "test_in_progress (cspec_error_mem m u) = test_in_progress u
    \<and> test_current_line (cspec_error_mem m u) = test_current_line u
    \<and> ctx_stack (cspec_error_mem m u) = ctx_stack u
    \<and> ctx_stack_index (cspec_error_mem m u) = ctx_stack_index u
    \<and> ctx_stack_top (cspec_error_mem m u) = ctx_stack_top u" for m u
    by (simp add: cspec_error_mem_def)
  show ?thesis
  proof (cases "grow_records (s\<lparr> memory_count_mallocs := memory_count_mallocs s + 1 \<rparr>)")
    case None
    then show ?thesis
      using assms e
      by (auto simp: cspec_malloc_def Let_def split: if_splits)
  next
    case (Some v)
    note gv = g[OF Some]
    show ?thesis
      using assms e gv Some
      by (auto simp: cspec_malloc_def Let_def split: if_splits sum.splits bool.splits)
  qed
qed

lemma store_control:
  assumes "store_byte s a v = Inr t"
  shows "test_in_progress t = test_in_progress s \<and> test_current_line t = test_current_line s
    \<and> ctx_stack t = ctx_stack s \<and> ctx_stack_index t = ctx_stack_index s
    \<and> ctx_stack_top t = ctx_stack_top s"
  using assms by (auto simp: store_byte_def split: if_splits)

lemma overrun_control: "keeps_control overrun"
  unfolding keeps_control_def
proof (intro allI impI)
  fix s t b assume a: "overrun s = Inr (t, b)"
  show "test_in_progress t = test_in_progress s \<and> test_current_line t = test_current_line s
    \<and> ctx_stack t = ctx_stack s \<and> ctx_stack_index t = ctx_stack_index s
    \<and> ctx_stack_top t = ctx_stack_top s"
  proof (cases "cspec_malloc s 5")
    case (Inl f)
    then show ?thesis using a by (simp add: overrun_def)
  next
    case (Inr x)
    obtain s1 p where x: "x = (s1, p)" by (cases x)
    note c1 = malloc_control[OF Inr[unfolded x]]
    show ?thesis
    proof (cases p)
      case None
      then show ?thesis using a Inr x c1 by (simp add: overrun_def)
    next
      case (Some q)
      show ?thesis
      proof (cases "store_byte s1 (q + 5) 0")
        case (Inl f)
        then show ?thesis using a Inr x Some by (simp add: overrun_def)
      next
        case s2: (Inr s2)
        note c2 = store_control[OF s2]
        show ?thesis
        proof (cases "cspec_malloc s2 4")
          case (Inl f)
          then show ?thesis using a Inr x Some s2 by (simp add: overrun_def)
        next
          case y: (Inr y)
          obtain s3 r where y': "y = (s3, r)" by (cases y)
          note c3 = malloc_control[OF y[unfolded y']]
          have "t = s3" using a Inr x Some s2 y y' by (simp add: overrun_def)
          then show ?thesis using c1 c2 c3 by simp
        qed
      qed
    qed
  qed
qed

lemma overrun_well_formed: "well_formed overrun_group"
  by (simp add: well_formed_def overrun_group_def overrun_control)

lemma initial_ctx_start: "ctx_start initial_state"
  by (simp add: ctx_start_def initial_state_def cspec_ctx_stack_size_max_def)

subsection \<open>The context stack\<close>

lemma ctx_inv_begin:
  assumes "ctx_inv s"
  shows "ctx_inv (fst (cspec_context_begin line d s))"
  using assms
  by (auto simp: ctx_inv_def cspec_context_begin_def Let_def cspec_warn_fn_def
        cspec_ctx_stack_size_max_def nth_list_update)

lemma begin_true:
  assumes "ctx_inv s" "d \<noteq> root_desc" "snd (cspec_context_begin line d s)"
  shows "0 < ctx_stack_top (fst (cspec_context_begin line d s))"
    and "\<not> test_in_progress (fst (cspec_context_begin line d s))"
proof -
  have nz: "desc (ctx_stack s ! nat (ctx_stack_index s)) = d \<Longrightarrow> 0 < ctx_stack_index s"
  proof (rule ccontr)
    assume a: "desc (ctx_stack s ! nat (ctx_stack_index s)) = d" "\<not> 0 < ctx_stack_index s"
    then have "ctx_stack_index s = 0" using assms(1) by (simp add: ctx_inv_def)
    then show False using a assms(1,2) by (simp add: ctx_inv_def root_context_def)
  qed
  show "0 < ctx_stack_top (fst (cspec_context_begin line d s))"
    using assms nz
    by (auto simp: ctx_inv_def cspec_context_begin_def Let_def cspec_warn_fn_def
          split: if_splits)
  show "\<not> test_in_progress (fst (cspec_context_begin line d s))"
    using assms
    by (auto simp: cspec_context_begin_def Let_def cspec_warn_fn_def split: if_splits)
qed

lemma ctx_inv_end:
  assumes "ctx_inv s" "0 < ctx_stack_top s"
  shows "ctx_inv (fst (cspec_context_end line s))"
  using assms
  by (auto simp: ctx_inv_def cspec_context_end_def Let_def)

lemma ctx_fields_begin:
  "ctx_stack (fst (cspec_begin line s)) = ctx_stack s"
  "ctx_stack_top (fst (cspec_begin line s)) = ctx_stack_top s"
  "ctx_stack_index (fst (cspec_begin line s)) = ctx_stack_index s"
  by (simp_all add: cspec_begin_def Let_def)

lemma ctx_fields_end:
  assumes "cspec_end s = Inr (t, b)"
  shows "ctx_stack t = ctx_stack s" "ctx_stack_top t = ctx_stack_top s"
    "ctx_stack_index t = ctx_stack_index s" "test_current_line t = test_current_line s"
    "\<not> test_in_progress t"
proof -
  have "ctx_stack t = ctx_stack s \<and> ctx_stack_top t = ctx_stack_top s
    \<and> ctx_stack_index t = ctx_stack_index s \<and> test_current_line t = test_current_line s
    \<and> \<not> test_in_progress t"
  proof (cases "test_in_progress s")
    case False
    then show ?thesis using assms by (auto simp: cspec_end_def)
  next
    case True
    then obtain e where e: "end_checks s = Inr e"
      using assms by (cases "end_checks s") (simp_all add: cspec_end_def)
    from cspec_end_returns[OF True e] assms show ?thesis by auto
  qed
  then show "ctx_stack t = ctx_stack s" "ctx_stack_top t = ctx_stack_top s"
    "ctx_stack_index t = ctx_stack_index s" "test_current_line t = test_current_line s"
    "\<not> test_in_progress t"
    by simp_all
qed

lemma ctx_reachable_inv: "ctx_reachable s \<Longrightarrow> ctx_inv s"
proof (induction rule: ctx_reachable.induct)
  case (start s)
  then show ?case by (simp add: ctx_start_def ctx_inv_def cspec_ctx_stack_size_max_def)
next
  case (enter s d line)
  then show ?case by (simp add: ctx_inv_begin)
next
  case (leave s d line)
  have "ctx_inv (fst (cspec_context_begin line d s))" using leave.IH by (rule ctx_inv_begin)
  moreover have "0 < ctx_stack_top (fst (cspec_context_begin line d s))"
    using begin_true(1)[OF leave.IH leave.hyps(2,3)] .
  ultimately show ?case by (rule ctx_inv_end)
next
  case (test_begin s line)
  then show ?case by (simp add: ctx_inv_def ctx_fields_begin)
next
  case (test_end s t b)
  then show ?case using ctx_fields_end(1-3)[OF test_end.hyps(2)] by (simp add: ctx_inv_def)
next
  case (pass s)
  then show ?case by (auto simp: ctx_inv_def before_pass_control)
next
  case (clear s)
  then show ?case by (simp add: ctx_inv_def context_clear_stack_def cspec_ctx_stack_size_max_def)
qed

text \<open>
  For the calls the macros make, the bounds on the stack hold: in every state reached
  this way \<open>0 \<le> ctx_stack_top < cspec_ctx_stack_size_max\<close> and the entry at index 0 is the
  root, and a first entry that finds the stack at its maximum depth prints the two
  capacity warnings and returns false, with the stack as it was.
\<close>

lemma context_stack_bounds:
  assumes "ctx_reachable s"
  shows "0 \<le> ctx_stack_top s \<and> ctx_stack_top s < cspec_ctx_stack_size_max
    \<and> ctx_stack s ! 0 = root_context
    \<and> (\<not> test_in_progress s
         \<and> \<not> (ctx_stack_index s < ctx_stack_top s
               \<and> desc (ctx_stack s ! nat (ctx_stack_index s + 1)) = d)
         \<and> desc (ctx_stack s ! nat (ctx_stack_index s)) \<noteq> d
         \<and> \<not> test_current_line s > line
         \<and> ctx_stack_top s + 1 \<ge> cspec_ctx_stack_size_max
       \<longrightarrow> snd (cspec_context_begin line d s) = False
           \<and> ctx_stack_top (fst (cspec_context_begin line d s)) = ctx_stack_top s
           \<and> ctx_stack (fst (cspec_context_begin line d s)) = ctx_stack s
           \<and> events (fst (cspec_context_begin line d s))
               = events s @ [Warning line Too_many_contexts, Warning line Stack_limit_hint])"
proof -
  have "ctx_inv s" using assms by (rule ctx_reachable_inv)
  then have "0 \<le> ctx_stack_top s \<and> ctx_stack_top s < cspec_ctx_stack_size_max
    \<and> ctx_stack s ! 0 = root_context"
    by (simp add: ctx_inv_def)
  then show ?thesis
    by (simp add: cspec_context_begin_def Let_def cspec_warn_fn_def)
qed

lemma nest_facts:
  "n \<le> 19 \<Longrightarrow>
     ctx_reachable (nest n initial_state)
     \<and> ctx_stack_top (nest n initial_state) = int n
     \<and> ctx_stack_index (nest n initial_state) = int n
     \<and> test_current_line (nest n initial_state) = int n
     \<and> \<not> test_in_progress (nest n initial_state)
     \<and> param_line (nest n initial_state) = 0
     \<and> events (nest n initial_state) = []
     \<and> desc (ctx_stack (nest n initial_state) ! n) = Some n"
proof (induction n)
  case 0
  show ?case
    using ctx_reachable.start[OF initial_ctx_start]
    by (simp add: initial_state_def root_context_def root_desc_def)
next
  case (Suc n)
  let ?s = "nest n initial_state"
  have ih: "ctx_reachable ?s" "ctx_stack_top ?s = int n" "ctx_stack_index ?s = int n"
    "test_current_line ?s = int n" "\<not> test_in_progress ?s" "param_line ?s = 0"
    "events ?s = []" "desc (ctx_stack ?s ! n) = Some n"
    using Suc by simp_all
  have len: "length (ctx_stack ?s) = 20"
    using ctx_reachable_inv[OF ih(1)] by (simp add: ctx_inv_def cspec_ctx_stack_size_max_def)
  have ne: "desc (ctx_stack ?s ! n) \<noteq> Some (Suc n)"
    using ih(8) by simp
  have r: "ctx_reachable (nest (Suc n) initial_state)"
    using ctx_reachable.enter[OF ih(1), of "Some (Suc n)" "int (Suc n)"]
    by (simp add: root_desc_def)
  have b: "cspec_context_begin (int (Suc n)) (Some (Suc n)) ?s =
      (?s\<lparr> test_current_line := int (Suc n), ctx_stack_top := int (Suc n),
            ctx_stack_index := int (Suc n),
            ctx_stack := (ctx_stack ?s)[Suc n := \<lparr> desc = Some (Suc n),
               printed = False, requested_context = False \<rparr>] \<rparr>, True)"
    using ih(2-7) ne Suc.prems
    by (simp add: cspec_context_begin_def Let_def cspec_ctx_stack_size_max_def nat_add_distrib)
  have eq: "nest (Suc n) initial_state =
      ?s\<lparr> test_current_line := int (Suc n), ctx_stack_top := int (Suc n),
            ctx_stack_index := int (Suc n),
            ctx_stack := (ctx_stack ?s)[Suc n := \<lparr> desc = Some (Suc n),
               printed = False, requested_context = False \<rparr>] \<rparr>"
    by (simp only: nest.simps b fst_conv)
  have "ctx_stack_top (nest (Suc n) initial_state) = int (Suc n)"
    "ctx_stack_index (nest (Suc n) initial_state) = int (Suc n)"
    "test_current_line (nest (Suc n) initial_state) = int (Suc n)"
    "\<not> test_in_progress (nest (Suc n) initial_state)"
    "param_line (nest (Suc n) initial_state) = 0"
    "events (nest (Suc n) initial_state) = []"
    "desc (ctx_stack (nest (Suc n) initial_state) ! Suc n) = Some (Suc n)"
    using ih len Suc.prems by (simp_all add: eq del: nest.simps)
  then show ?case
    using r by (simp del: nest.simps)
qed

lemma capacity_example:
  "ctx_reachable (nest 19 initial_state)
   \<and> ctx_stack_top (nest 19 initial_state) = 19
   \<and> \<not> test_in_progress (nest 19 initial_state)
   \<and> ctx_stack_top (nest 19 initial_state) + 1 \<ge> cspec_ctx_stack_size_max
   \<and> ctx_stack (nest 19 initial_state) ! 0 = root_context
   \<and> snd (cspec_context_begin 20 (Some 20) (nest 19 initial_state)) = False
   \<and> ctx_stack_top (fst (cspec_context_begin 20 (Some 20) (nest 19 initial_state))) = 19
   \<and> events (fst (cspec_context_begin 20 (Some 20) (nest 19 initial_state)))
        = [Warning 20 Too_many_contexts, Warning 20 Stack_limit_hint]"
proof -
  let ?s = "nest 19 initial_state"
  have f: "ctx_reachable ?s" "ctx_stack_top ?s = 19" "ctx_stack_index ?s = 19"
    "test_current_line ?s = 19" "\<not> test_in_progress ?s" "events ?s = []"
    "desc (ctx_stack ?s ! 19) = Some 19"
    using nest_facts[of 19] by simp_all
  have ne: "desc (ctx_stack ?s ! nat (ctx_stack_index ?s)) \<noteq> Some 20"
    unfolding f(3) using f(7) by simp
  show ?thesis
    using context_stack_bounds[OF f(1), of "Some 20" 20] f ne
    by (simp add: cspec_ctx_stack_size_max_def)
qed



subsection \<open>Termination of the passes over a test group\<close>

lemma weight_bound: "weight c ds its < 2 ^ count_ctx its"
proof (induction c ds its rule: weight.induct)
  case (4 c ds line d sub its)
  let ?a = "(if ds \<noteq> [] \<and> hd ds = d then 2 ^ count_ctx sub + weight c (tl ds) sub
      else if c \<le> line then 2 ^ count_ctx sub + weight c [] sub
      else 0)"
  have a: "?a < 2 * 2 ^ count_ctx sub"
    using "4.IH"(1,2) by (auto simp: )
  have b: "weight c ds its < 2 ^ count_ctx its" by (rule "4.IH"(3))
  have "?a * 2 ^ count_ctx its + weight c ds its < (?a + 1) * 2 ^ count_ctx its"
    using b by (simp add: algebra_simps)
  also have "\<dots> \<le> (2 * 2 ^ count_ctx sub) * 2 ^ count_ctx its"
    using a by (intro mult_right_mono) simp_all
  finally show ?case by (simp add: power_add)
qed simp_all

lemma weight_nomatch:
  "ds = [] \<or> hd ds \<notin> set (descs_of its) \<Longrightarrow> weight c ds its = weight c [] its"
  by (induction c ds its rule: weight.induct) auto

lemma weight_mono: "c \<le> c' \<Longrightarrow> weight c' [] its \<le> weight c [] its"
proof (induction c "[] :: text_ptr list" its rule: weight.induct)
  case (4 c line d sub its)
  show ?case
    using 4 by (auto intro!: add_mono mult_right_mono)
qed simp_all

lemma weight_zero: "\<forall>l \<in> set (lines_of its). l < c \<Longrightarrow> weight c [] its = 0"
  by (induction c "[] :: text_ptr list" its rule: weight.induct) auto

lemma ready_hd: "ready c its (d # ds) \<Longrightarrow> d \<in> set (descs_of its)"
  by (induction c its "d # ds" rule: ready.induct) (auto split: if_splits)

lemma path_nil: "ctx_stack_top s = int k \<Longrightarrow> path s k = []"
  by (simp add: path_def)

lemma path_cons:
  "int k < ctx_stack_top s \<Longrightarrow> path s k = desc (ctx_stack s ! Suc k) # path s (Suc k)"
proof -
  assume "int k < ctx_stack_top s"
  then have "Suc k < Suc (nat (ctx_stack_top s))" by linarith
  then have "[Suc k ..< Suc (nat (ctx_stack_top s))]
      = Suc k # [Suc (Suc k) ..< Suc (nat (ctx_stack_top s))]"
    by (rule upt_conv_Cons)
  then show ?thesis by (simp add: path_def)
qed

lemma path_cong:
  "ctx_stack s' = ctx_stack s \<Longrightarrow> ctx_stack_top s' = ctx_stack_top s \<Longrightarrow> path s' k = path s k"
  by (simp add: path_def)

lemma path_nil_iff: "int k \<le> ctx_stack_top s \<Longrightarrow> path s k = [] \<longleftrightarrow> ctx_stack_top s = int k"
  by (auto simp: path_def)

lemma begin_skip:
  "\<not> test_in_progress s \<Longrightarrow> line \<le> test_current_line s \<Longrightarrow> cspec_begin line s = (s, False)"
  by (simp add: cspec_begin_def)

lemma begin_visit:
  assumes "\<not> test_in_progress s" "test_current_line s < line"
  shows "\<exists>s1 ok. cspec_begin line s = (s1, ok) \<and> test_in_progress s1 = ok
      \<and> test_current_line s1 = line \<and> ctx_stack s1 = ctx_stack s
      \<and> ctx_stack_index s1 = ctx_stack_index s \<and> ctx_stack_top s1 = ctx_stack_top s"
  using assms by (simp add: cspec_begin_def Let_def)

lemma begin_in_progress:
  "test_in_progress s \<Longrightarrow> cspec_begin line s = (s, False)"
  "test_in_progress s \<Longrightarrow> cspec_context_begin line d s = (s, False)"
  by (simp_all add: cspec_begin_def cspec_context_begin_def)

lemma cbegin_replay:
  assumes "level s k" "int k < ctx_stack_top s" "desc (ctx_stack s ! Suc k) = d"
  shows "cspec_context_begin line d s = (s\<lparr> ctx_stack_index := int k + 1 \<rparr>, True)"
  using assms by (simp add: cspec_context_begin_def level_def nat_add_distrib)

lemma cbegin_match:
  assumes "level s k" "\<not> (int k < ctx_stack_top s \<and> desc (ctx_stack s ! Suc k) = d)"
    and "desc (ctx_stack s ! k) = d"
  shows "cspec_context_begin line d s = (s, True)"
  using assms by (auto simp: cspec_context_begin_def level_def nat_add_distrib)

lemma cbegin_skip:
  assumes "level s k" "\<not> (int k < ctx_stack_top s \<and> desc (ctx_stack s ! Suc k) = d)"
    and "desc (ctx_stack s ! k) \<noteq> d" "line < test_current_line s"
  shows "cspec_context_begin line d s = (s, False)"
  using assms by (auto simp: cspec_context_begin_def level_def nat_add_distrib)

lemma cbegin_full:
  assumes "level s k" "\<not> (int k < ctx_stack_top s \<and> desc (ctx_stack s ! Suc k) = d)"
    and "desc (ctx_stack s ! k) \<noteq> d" "test_current_line s \<le> line"
    and "20 \<le> ctx_stack_top s + 1"
  shows "\<exists>s1. cspec_context_begin line d s = (s1, False) \<and> level s1 k
      \<and> test_current_line s1 = line \<and> ctx_stack s1 = ctx_stack s
      \<and> ctx_stack_top s1 = ctx_stack_top s"
  using assms
  by (auto simp: cspec_context_begin_def level_def nat_add_distrib Let_def
        cspec_ctx_stack_size_max_def cspec_warn_fn_def)

lemma cbegin_push:
  assumes "level s k" "\<not> (int k < ctx_stack_top s \<and> desc (ctx_stack s ! Suc k) = d)"
    and "desc (ctx_stack s ! k) \<noteq> d" "test_current_line s \<le> line"
    and "ctx_stack_top s + 1 < 20"
  shows "\<exists>s1. cspec_context_begin line d s = (s1, True) \<and> \<not> test_in_progress s1
      \<and> test_current_line s1 = line
      \<and> ctx_stack_top s1 = ctx_stack_top s + 1 \<and> ctx_stack_index s1 = ctx_stack_top s + 1
      \<and> length (ctx_stack s1) = 20
      \<and> desc (ctx_stack s1 ! nat (ctx_stack_top s + 1)) = d
      \<and> (\<forall>i. i \<noteq> nat (ctx_stack_top s + 1) \<longrightarrow> ctx_stack s1 ! i = ctx_stack s ! i)"
  using assms
  by (auto simp: cspec_context_begin_def level_def nat_add_distrib Let_def
        cspec_ctx_stack_size_max_def)

lemma cend:
  assumes "\<not> test_in_progress s"
  shows "\<exists>s1. cspec_context_end line s = (s1, True) \<and> \<not> test_in_progress s1
      \<and> test_current_line s1 = line + 1
      \<and> ctx_stack_top s1 = ctx_stack_top s - 1 \<and> ctx_stack_index s1 = ctx_stack_top s - 1
      \<and> ctx_stack s1 = ctx_stack s"
  using assms by (simp add: cspec_context_end_def Let_def)

lemma frozen:
  assumes "test_in_progress s" "bodies_ok its" "exec_items its s = Inr (s', ret)"
  shows "test_in_progress s' \<and> test_current_line s' = test_current_line s
     \<and> ctx_stack s' = ctx_stack s \<and> ctx_stack_index s' = ctx_stack_index s
     \<and> ctx_stack_top s' = ctx_stack_top s"
  using assms
proof (induction its arbitrary: s rule: count_ctx.induct)
  case 1
  then show ?case by simp
next
  case (2 line body its)
  have "exec_items its s = Inr (s', ret)"
    using "2.prems"(1,3) by (simp add: begin_in_progress)
  from "2.IH"[OF "2.prems"(1) _ this] "2.prems"(2) show ?case by simp
next
  case (3 f its)
  obtain s1 r1 where f: "f s = Inr (s1, r1)"
    using "3.prems"(3) by (cases "f s") auto
  have k: "test_in_progress s1 \<and> test_current_line s1 = test_current_line s
     \<and> ctx_stack s1 = ctx_stack s \<and> ctx_stack_index s1 = ctx_stack_index s
     \<and> ctx_stack_top s1 = ctx_stack_top s"
  proof -
    have "keeps_control f" using "3.prems"(2) by simp
    then show ?thesis using "3.prems"(1) f unfolding keeps_control_def by blast
  qed
  show ?case
  proof (cases r1)
    case True
    then show ?thesis using "3.prems"(3) f k by simp
  next
    case False
    then have "exec_items its s1 = Inr (s', ret)" using "3.prems"(3) f by simp
    from "3.IH"[OF _ _ this] k "3.prems"(2) show ?thesis by simp
  qed
next
  case (4 line d sub its)
  have "exec_items its s = Inr (s', ret)"
    using "4.prems"(1,3) by (simp add: begin_in_progress)
  from "4.IH"(2)[OF "4.prems"(1) _ this] "4.prems"(2) show ?case by simp
qed

lemma comb_le: "(a'::nat) \<le> a \<Longrightarrow> w' \<le> w \<Longrightarrow> a' * n + w' \<le> a * n + w"
  by (simp add: add_mono mult_right_mono)

lemma comb_lt1: "(a'::nat) \<le> a \<Longrightarrow> w' < w \<Longrightarrow> a' * n + w' < a * n + w"
  by (simp add: add_le_less_mono mult_right_mono)

lemma comb_lt2:
  assumes "(a'::nat) < a" "w' < n"
  shows "a' * n + w' < a * n + w"
proof -
  have "a' * n + w' < a' * n + n" using assms(2) by simp
  also have "\<dots> = (a' + 1) * n" by (simp add: algebra_simps)
  also have "\<dots> \<le> a * n" using assms(1) by (intro mult_right_mono) simp_all
  finally show ?thesis by simp
qed

lemma sorted_ctx:
  assumes "sorted (lines_of (Context line d sub # its))"
  shows "sorted (lines_of sub)" "sorted (lines_of its)"
    "\<forall>l \<in> set (lines_of sub). line \<le> l" "\<forall>l \<in> set (lines_of its). line \<le> l"
    "\<forall>a \<in> set (lines_of sub). \<forall>b \<in> set (lines_of its). a \<le> b"
  using assms by (auto simp: sorted_append)

lemma weight_tail_le:
  assumes "c \<le> c1" "c1 = c \<or> ds = []"
  shows "weight c1 ds its \<le> weight c ds its"
  using assms weight_mono[of c c1 its] by auto

lemma post_tail:
  assumes r: "post s1 k its m hi s' ret"
    and same: "ctx_stack s1 = ctx_stack s" "ctx_stack_top s1 = ctx_stack_top s"
    and c: "test_current_line s \<le> test_current_line s1"
      "test_current_line s1 \<le> max (test_current_line s) hi"
      "test_current_line s1 = test_current_line s \<or> path s k = []"
    and m: "lo \<le> m" "\<forall>a \<in> set (lines_of [h]). a \<le> m"
    and dis: "\<forall>d \<in> set (descs_of [h]). d \<notin> set (descs_of its)"
    and notopen: "path s k \<noteq> [] \<longrightarrow> hd (path s k) \<notin> set (descs_of [h])"
    and hfact: "case h of
        Test T b \<Rightarrow> T \<le> test_current_line s1
      | Setup f \<Rightarrow> True
      | Context L d sub \<Rightarrow>
          L < test_current_line s1
          \<or> (test_current_line s1 = L \<and> ctx_stack_top s = 19 \<and> k = 19)"
  shows "post s k (h # its) lo hi s' ret"
proof -
  let ?c = "test_current_line s" and ?c1 = "test_current_line s1"
    and ?c' = "test_current_line s'"
  let ?ds = "path s k" and ?ds' = "path s' k"
  have p1: "path s1 k = ?ds" using same by (rule path_cong)
  have r1: "int k \<le> ctx_stack_top s'" "ctx_stack_top s' < 20" "length (ctx_stack s') = 20"
    "\<forall>i \<le> k. ctx_stack s' ! i = ctx_stack s ! i"
    "ready ?c' its ?ds'"
    "weight ?c' ?ds' its \<le> weight ?c1 ?ds its"
    "?c' < ?c1 \<longrightarrow> weight ?c' ?ds' its < weight ?c1 ?ds its"
    "?c1 \<le> ?c' \<or> m < ?c'" "?c' \<le> max ?c1 hi"
    "test_in_progress s' \<longrightarrow> ?c1 < ?c'"
    "\<not> test_in_progress s' \<and> \<not> ret \<longrightarrow>
          ctx_stack_index s' = int k \<and> ctx_stack_top s' = int k \<and> ctx_stack_top s = int k"
    using r unfolding post_def p1 same by simp_all
  have t0: "weight ?c1 ?ds its \<le> weight ?c ?ds its"
    using c(1,3) by (rule weight_tail_le)
  have tl: "weight ?c' ?ds' its \<le> weight ?c ?ds its"
    using r1(6) t0 by simp
  have tlt: "?c' < ?c \<Longrightarrow> weight ?c' ?ds' its < weight ?c ?ds its"
    using r1(7) t0 c(1) by simp
  have hd': "?ds' \<noteq> [] \<Longrightarrow> hd ?ds' \<in> set (descs_of its)"
    using r1(5) ready_hd[of ?c' its "hd ?ds'" "tl ?ds'"] by simp
  have full_nil: "ctx_stack_top s = 19 \<Longrightarrow> k = 19 \<Longrightarrow> ?ds' = []"
    using r1(1,2) by (simp add: path_nil)
  have rdy: "ready ?c' (h # its) ?ds'"
  proof (cases ?ds')
    case Nil
    then show ?thesis by simp
  next
    case (Cons d' ds'')
    then have d': "d' \<in> set (descs_of its)" using hd' by simp
    show ?thesis
    proof (cases h)
      case (Test T b)
      then have "T \<le> ?c'" using hfact m(2) r1(8) by auto
      then show ?thesis using Test Cons r1(5) by simp
    next
      case (Setup f)
      then show ?thesis using Cons r1(5) by simp
    next
      case (Context L d sub)
      then have ne: "d \<noteq> d'" using dis d' by auto
      have "L < ?c'"
        using hfact m(2) r1(8) full_nil Cons Context by auto
      then show ?thesis using Context Cons r1(5) ne by simp
    qed
  qed
  have w: "weight ?c' ?ds' (h # its) \<le> weight ?c ?ds (h # its)
    \<and> (?c' < ?c \<longrightarrow> weight ?c' ?ds' (h # its) < weight ?c ?ds (h # its))"
  proof (cases h)
    case (Test T b)
    then show ?thesis using tl tlt by simp
  next
    case (Setup f)
    then show ?thesis using tl tlt by simp
  next
    case (Context L d sub)
    let ?h' = "if ?c' \<le> L then 2 ^ count_ctx sub + weight ?c' [] sub else 0"
    let ?h = "if ?c \<le> L then 2 ^ count_ctx sub + weight ?c [] sub else 0"
    have a: "\<not> (?ds' \<noteq> [] \<and> hd ?ds' = d)" using hd' dis Context by auto
    have b: "\<not> (?ds \<noteq> [] \<and> hd ?ds = d)" using notopen Context by auto
    have e': "weight ?c' ?ds' (h # its) = ?h' * 2 ^ count_ctx its + weight ?c' ?ds' its"
      using a Context by auto
    have e: "weight ?c ?ds (h # its) = ?h * 2 ^ count_ctx its + weight ?c ?ds its"
      using b Context by auto
    have hle: "?h' \<le> ?h"
    proof (cases "?c' \<le> L")
      case False
      then show ?thesis by simp
    next
      case True
      have Lm: "L \<le> m" using m(2) Context by simp
      then have "?c1 \<le> ?c'" using r1(8) True by auto
      then have "?c1 = L" "?c \<le> ?c'" using hfact Context True c(1) by auto
      then have "?c \<le> L" "weight ?c' [] sub \<le> weight ?c [] sub"
        using True weight_mono[of ?c ?c' sub] by auto
      then show ?thesis using True by simp
    qed
    show ?thesis
      unfolding e e' using comb_le[OF hle tl] comb_lt1[OF hle tlt] by blast
  qed
  show ?thesis
    unfolding post_def
    using r1(1-4) rdy w r1(8-11) c(1,2) m(1) by auto
qed

lemma post_enter:
  assumes sub: "post s1 (Suc k) sub lo hi s2 ret2"
    and s1: "\<forall>i \<le> k. ctx_stack s1 ! i = ctx_stack s ! i" "desc (ctx_stack s1 ! Suc k) = d"
      "test_current_line s \<le> test_current_line s1"
      "test_current_line s1 \<le> max (test_current_line s) hi"
    and w1: "weight (test_current_line s1) (d # path s1 (Suc k)) (Context L d sub # its)
               \<le> weight (test_current_line s) (path s k) (Context L d sub # its)"
    and dis: "d \<notin> set (descs_of its)"
    and same: "test_current_line s' = test_current_line s2" "ctx_stack s' = ctx_stack s2"
      "ctx_stack_top s' = ctx_stack_top s2" "test_in_progress s' = test_in_progress s2"
    and out: "ret \<or> test_in_progress s'"
  shows "post s k (Context L d sub # its) lo hi s' ret"
proof -
  let ?c = "test_current_line s" and ?c1 = "test_current_line s1"
    and ?c2 = "test_current_line s2"
  let ?ds1 = "path s1 (Suc k)" and ?ds2 = "path s2 (Suc k)"
  let ?n = "2 ^ count_ctx its :: nat"
  have r: "int (Suc k) \<le> ctx_stack_top s2" "ctx_stack_top s2 < 20" "length (ctx_stack s2) = 20"
    "\<forall>i \<le> Suc k. ctx_stack s2 ! i = ctx_stack s1 ! i"
    "ready ?c2 sub ?ds2"
    "weight ?c2 ?ds2 sub \<le> weight ?c1 ?ds1 sub"
    "?c2 < ?c1 \<longrightarrow> weight ?c2 ?ds2 sub < weight ?c1 ?ds1 sub"
    "?c1 \<le> ?c2 \<or> lo < ?c2" "?c2 \<le> max ?c1 hi"
    "test_in_progress s2 \<longrightarrow> ?c1 < ?c2"
    using sub unfolding post_def by simp_all
  have p2: "path s2 k = d # ?ds2"
    using path_cons[of k s2] r(1,4) s1(2) by simp
  have p': "path s' k = d # ?ds2"
    using path_cong[OF same(2,3), of k] p2 by simp
  have nm: "weight x (d # y) its = weight x [] its" for x y
    using weight_nomatch[of "d # y" its x] dis by simp
  have e2: "weight ?c2 (d # ?ds2) (Context L d sub # its)
      = (2 ^ count_ctx sub + weight ?c2 ?ds2 sub) * ?n + weight ?c2 [] its"
    by (simp add: nm)
  have e1: "weight ?c1 (d # ?ds1) (Context L d sub # its)
      = (2 ^ count_ctx sub + weight ?c1 ?ds1 sub) * ?n + weight ?c1 [] its"
    by (simp add: nm)
  have le21: "weight ?c2 (d # ?ds2) (Context L d sub # its)
      \<le> weight ?c1 (d # ?ds1) (Context L d sub # its)"
  proof (cases "?c1 \<le> ?c2")
    case True
    have "weight ?c2 [] its \<le> weight ?c1 [] its" using True by (rule weight_mono)
    moreover have "2 ^ count_ctx sub + weight ?c2 ?ds2 sub
        \<le> 2 ^ count_ctx sub + weight ?c1 ?ds1 sub" using r(6) by simp
    ultimately show ?thesis unfolding e1 e2 by (rule comb_le[rotated])
  next
    case False
    then have "2 ^ count_ctx sub + weight ?c2 ?ds2 sub
        < 2 ^ count_ctx sub + weight ?c1 ?ds1 sub" using r(7) by simp
    from comb_lt2[OF this weight_bound[of ?c2 "[]" its]]
    show ?thesis unfolding e1 e2 by (simp add: less_imp_le)
  qed
  have lt21: "?c2 < ?c1 \<Longrightarrow> weight ?c2 (d # ?ds2) (Context L d sub # its)
      < weight ?c1 (d # ?ds1) (Context L d sub # its)"
  proof -
    assume "?c2 < ?c1"
    then have "2 ^ count_ctx sub + weight ?c2 ?ds2 sub
        < 2 ^ count_ctx sub + weight ?c1 ?ds1 sub" using r(7) by simp
    from comb_lt2[OF this weight_bound[of ?c2 "[]" its]]
    show ?thesis unfolding e1 e2 .
  qed
  have stack: "\<forall>i \<le> k. ctx_stack s' ! i = ctx_stack s ! i"
    using r(4) s1(1) same(2) by simp
  have rdy: "ready (test_current_line s') (Context L d sub # its) (path s' k)"
    unfolding p' same(1) using r(5) by simp
  have wle: "weight (test_current_line s') (path s' k) (Context L d sub # its)
     \<le> weight ?c (path s k) (Context L d sub # its)"
    unfolding p' same(1) using le21 w1 by (rule order_trans)
  have wlt: "test_current_line s' < ?c \<longrightarrow>
     weight (test_current_line s') (path s' k) (Context L d sub # its)
       < weight ?c (path s k) (Context L d sub # its)"
    unfolding p' same(1) using lt21 w1 s1(3) by auto
  show ?thesis
    unfolding post_def
    using r(1-3) stack rdy wle wlt r(8-10) s1(3,4) same out by auto
qed

lemma post_close:
  assumes w1: "weight c1 (d # ds1) (Context L d sub # its)
               \<le> weight (test_current_line s) (path s k) (Context L d sub # its)"
    and dis: "d \<notin> set (descs_of its)"
    and L: "lo \<le> L" "L < hi"
    and s': "ctx_stack_top s' = int k" "length (ctx_stack s') = 20"
      "\<forall>i \<le> k. ctx_stack s' ! i = ctx_stack s ! i"
      "test_current_line s' = L + 1" "\<not> test_in_progress s'"
    and k: "k < 20"
  shows "post s k (Context L d sub # its) lo hi s' True"
proof -
  let ?n = "2 ^ count_ctx its :: nat"
  have p': "path s' k = []" using s'(1) by (rule path_nil)
  have nm: "weight x (d # y) its = weight x [] its" for x y
    using weight_nomatch[of "d # y" its x] dis by simp
  have "weight (L + 1) [] (Context L d sub # its) = weight (L + 1) [] its" by simp
  also have "\<dots> < 1 * ?n + 0" using weight_bound[of "L + 1" "[]" its] by simp
  also have "\<dots> \<le> (2 ^ count_ctx sub + weight c1 ds1 sub) * ?n + weight c1 [] its"
  proof -
    have "(1::nat) \<le> 2 ^ count_ctx sub" by simp
    then have "(1::nat) \<le> 2 ^ count_ctx sub + weight c1 ds1 sub" by (rule trans_le_add1)
    then show ?thesis by (intro add_mono mult_right_mono) simp_all
  qed
  also have "\<dots> = weight c1 (d # ds1) (Context L d sub # its)" by (simp add: nm)
  finally have "weight (L + 1) [] (Context L d sub # its)
      < weight (test_current_line s) (path s k) (Context L d sub # its)"
    using w1 by simp
  then show ?thesis
    unfolding post_def p' s'(4)
    using s' L k by auto
qed

lemma mid_bound:
  assumes "\<forall>a \<in> set xs. \<forall>b \<in> set ys. a \<le> b" "\<forall>b \<in> set ys. (lo::int) \<le> b"
  obtains m where "lo \<le> m" "\<forall>a \<in> set xs. a \<le> m" "\<forall>b \<in> set ys. m \<le> b"
proof
  let ?m = "Max (insert lo (set xs))"
  show "lo \<le> ?m" by simp
  show "\<forall>a \<in> set xs. a \<le> ?m" by simp
  show "\<forall>b \<in> set ys. ?m \<le> b" using assms by simp
qed

lemma ctx_finish:
  assumes lev: "level s1 (Suc k)"
    and sub: "post s1 (Suc k) sub lo hi s2 ret2" "exec_items sub s1 = Inr (s2, ret2)"
    and s1: "\<forall>i \<le> k. ctx_stack s1 ! i = ctx_stack s ! i" "desc (ctx_stack s1 ! Suc k) = d"
      "test_current_line s \<le> test_current_line s1"
      "test_current_line s1 \<le> max (test_current_line s) hi"
    and w1: "weight (test_current_line s1) (d # path s1 (Suc k)) (Context L d sub # its)
               \<le> weight (test_current_line s) (path s k) (Context L d sub # its)"
    and dis: "d \<notin> set (descs_of its)"
    and L: "lo \<le> L" "L < hi"
    and ok: "bodies_ok its"
    and b: "cspec_context_begin L d s = (s1, True)"
    and ex: "exec_items (Context L d sub # its) s = Inr (s', ret)"
  shows "post s k (Context L d sub # its) lo hi s' ret"
proof -
  have r: "int (Suc k) \<le> ctx_stack_top s2" "ctx_stack_top s2 < 20" "length (ctx_stack s2) = 20"
    "\<forall>i \<le> Suc k. ctx_stack s2 ! i = ctx_stack s1 ! i"
    "\<not> test_in_progress s2 \<and> \<not> ret2 \<longrightarrow>
          ctx_stack_index s2 = int (Suc k) \<and> ctx_stack_top s2 = int (Suc k)"
    using sub(1) unfolding post_def by simp_all
  consider (ret) "ret2" | (prog) "\<not> ret2" "test_in_progress s2"
    | (close) "\<not> ret2" "\<not> test_in_progress s2" by blast
  then show ?thesis
  proof cases
    case ret
    then have "s' = s2" "ret" using ex b sub(2) by simp_all
    then show ?thesis
      using post_enter[OF sub(1) s1 w1 dis, of s' ret] by simp
  next
    case prog
    have "cspec_context_begin L d s2 = (s2, False)"
      using prog(2) by (rule begin_in_progress)
    then have "exec_items its s2 = Inr (s', ret)"
      using ex b sub(2) prog(1) by simp
    from frozen[OF prog(2) ok this]
    show ?thesis
      using post_enter[OF sub(1) s1 w1 dis, of s' ret] prog(2) by simp
  next
    case close
    have f: "ctx_stack_index s2 = int (Suc k)" "ctx_stack_top s2 = int (Suc k)"
      using r(5) close by simp_all
    have lev2: "level s2 (Suc k)"
      using close(2) f r(3) lev by (simp add: level_def)
    have d2: "desc (ctx_stack s2 ! Suc k) = d" using r(4) s1(2) by simp
    have b2: "cspec_context_begin L d s2 = (s2, True)"
      using cbegin_match[OF lev2 _ d2] f by simp
    obtain s4 where e: "cspec_context_end L s2 = (s4, True)" "\<not> test_in_progress s4"
      "test_current_line s4 = L + 1" "ctx_stack_top s4 = ctx_stack_top s2 - 1"
      "ctx_stack s4 = ctx_stack s2"
      using cend[OF close(2), of L] by blast
    have "s' = s4" "ret" using ex b sub(2) close(1) b2 e(1) by simp_all
    moreover have "ctx_stack_top s4 = int k" using e(4) f by simp
    moreover have "length (ctx_stack s4) = 20" using e(5) r(3) by simp
    moreover have "\<forall>i \<le> k. ctx_stack s4 ! i = ctx_stack s ! i"
      using e(5) r(4) s1(1) by simp
    moreover have "k < 20" using lev by (simp add: level_def)
    ultimately show ?thesis
      using post_close[OF w1 dis L, of s'] e(2,3) by simp
  qed
qed

lemma post_same:
  assumes lev: "level s k"
    and same: "test_in_progress s' = test_in_progress s"
      "test_current_line s' = test_current_line s" "ctx_stack s' = ctx_stack s"
      "ctx_stack_index s' = ctx_stack_index s" "ctx_stack_top s' = ctx_stack_top s"
    and rdy: "ready (test_current_line s) its (path s k)"
    and fin: "\<not> ret \<longrightarrow> ctx_stack_top s = int k"
  shows "post s k its lo hi s' ret"
proof -
  have "path s' k = path s k" using same(3,5) by (rule path_cong)
  then show ?thesis
    using lev same rdy fin unfolding post_def level_def by simp
qed

lemma post_started:
  assumes lev: "level s k"
    and top: "ctx_stack_top s = int k"
    and c: "test_current_line s < T" "T < hi"
    and same: "test_in_progress s'"
      "test_current_line s' = T" "ctx_stack s' = ctx_stack s"
      "ctx_stack_top s' = ctx_stack_top s"
  shows "post s k (Test T b # its) lo hi s' ret"
proof -
  have p: "path s k = []" using top by (rule path_nil)
  have "path s' k = path s k" using same(3,4) by (rule path_cong)
  then have p': "path s' k = []" using p by simp
  have w: "weight T [] its \<le> weight (test_current_line s) [] its"
    using c(1) weight_mono[of "test_current_line s" T its] by simp
  show ?thesis
    using lev same c w unfolding post_def level_def p p' by simp
qed

lemma exec_post:
  assumes "level s k" "sorted (lines_of its)" "distinct (descs_of its)" "bodies_ok its"
    "desc (ctx_stack s ! k) \<notin> set (descs_of its)"
    "ready (test_current_line s) its (path s k)"
    "\<forall>l \<in> set (lines_of its). lo \<le> l" "\<forall>l \<in> set (lines_of its). l < hi"
    "exec_items its s = Inr (s', ret)"
  shows "post s k its lo hi s' ret"
  using assms
proof (induction its arbitrary: s k lo s' ret rule: count_ctx.induct)
  case 1
  have "path s k = []" using "1.prems"(6) by (cases "path s k") simp_all
  then have top: "ctx_stack_top s = int k"
    using "1.prems"(1) path_nil_iff[of k s] by (simp add: level_def)
  have "s' = s" using "1.prems"(9) by simp
  then show ?case
    using post_same[OF "1.prems"(1), of s' "[]" ret lo hi] top "1.prems"(6) by simp
next
  case (2 T b its)
  note lev = "2.prems"(1)
  let ?c = "test_current_line s"
  have nip: "\<not> test_in_progress s" using lev by (simp add: level_def)
  have srt: "sorted (lines_of its)" "\<forall>l \<in> set (lines_of its). T \<le> l"
    using "2.prems"(2) by simp_all
  have T: "lo \<le> T" "T < hi" using "2.prems"(7,8) by simp_all
  have kc: "keeps_control b" and ok: "bodies_ok its" using "2.prems"(4) by simp_all
  have dis: "distinct (descs_of its)" "desc (ctx_stack s ! k) \<notin> set (descs_of its)"
    using "2.prems"(3,5) by simp_all
  have hi: "\<forall>l \<in> set (lines_of its). l < hi" using "2.prems"(8) by simp
  have lo: "\<forall>l \<in> set (lines_of its). T \<le> l" using srt(2) .
  have rdy_its: "ready ?c its (path s k)"
    using "2.prems"(6) by (cases "path s k") simp_all
  show ?case
  proof (cases "T \<le> ?c")
    case True
    have "cspec_begin T s = (s, False)" using nip True by (rule begin_skip)
    then have ex: "exec_items its s = Inr (s', ret)" using "2.prems"(9) by simp
    have r: "post s k its T hi s' ret"
      using "2.IH"[OF lev srt(1) dis(1) ok dis(2) rdy_its lo hi ex] .
    show ?thesis
      using post_tail[OF r refl refl, of lo "Test T b"] T True by simp
  next
    case False
    then have lt: "?c < T" by simp
    have p: "path s k = []"
      using "2.prems"(6) False by (cases "path s k") simp_all
    then have top: "ctx_stack_top s = int k"
      using lev path_nil_iff[of k s] by (simp add: level_def)
    obtain s1 ok1 where b: "cspec_begin T s = (s1, ok1)" "test_in_progress s1 = ok1"
      "test_current_line s1 = T" "ctx_stack s1 = ctx_stack s"
      "ctx_stack_index s1 = ctx_stack_index s" "ctx_stack_top s1 = ctx_stack_top s"
      using begin_visit[OF nip lt] by blast
    show ?thesis
    proof (cases ok1)
      case True
      obtain s2 r2 where body: "b s1 = Inr (s2, r2)"
        using "2.prems"(9) b(1) True by (cases "b s1") auto
      have k2: "test_in_progress s2 = test_in_progress s1"
        "test_current_line s2 = test_current_line s1" "ctx_stack s2 = ctx_stack s1"
        "ctx_stack_index s2 = ctx_stack_index s1" "ctx_stack_top s2 = ctx_stack_top s1"
        using kc body unfolding keeps_control_def by blast+
      have ip2: "test_in_progress s2" using k2(1) b(2) True by simp
      have fr: "test_in_progress s' \<and> test_current_line s' = test_current_line s2
         \<and> ctx_stack s' = ctx_stack s2 \<and> ctx_stack_top s' = ctx_stack_top s2"
      proof (cases r2)
        case True
        then have "s' = s2" using "2.prems"(9) b(1) \<open>ok1\<close> body by simp
        then show ?thesis using ip2 by simp
      next
        case False
        then have "exec_items its s2 = Inr (s', ret)"
          using "2.prems"(9) b(1) \<open>ok1\<close> body by simp
        from frozen[OF ip2 ok this] show ?thesis by simp
      qed
      show ?thesis
        using post_started[OF lev top lt T(2), of s' b its lo ret] fr k2 b by simp
    next
      case False
      have ex: "exec_items its s1 = Inr (s', ret)" using "2.prems"(9) b(1) False by simp
      have lev1: "level s1 k" using lev b False by (simp add: level_def)
      have p1: "path s1 k = []" using b(6) top by (simp add: path_nil)
      have r: "post s1 k its T hi s' ret"
        using "2.IH"[OF lev1 srt(1) dis(1) ok _ _ lo hi ex] dis(2) b(3,4) p1 by simp
      show ?thesis
        using post_tail[OF r b(4) b(6), of lo "Test T b"] T lt p b(3) by simp
    qed
  qed
next
  case (3 f its)
  note lev = "3.prems"(1)
  let ?c = "test_current_line s"
  have kc: "keeps_control f" and ok: "bodies_ok its" using "3.prems"(4) by simp_all
  have rdy_its: "ready ?c its (path s k)"
    using "3.prems"(6) by (cases "path s k") simp_all
  obtain s1 r1 where body: "f s = Inr (s1, r1)"
    using "3.prems"(9) by (cases "f s") auto
  have k1: "test_in_progress s1 = test_in_progress s"
    "test_current_line s1 = test_current_line s" "ctx_stack s1 = ctx_stack s"
    "ctx_stack_index s1 = ctx_stack_index s" "ctx_stack_top s1 = ctx_stack_top s"
    using kc body unfolding keeps_control_def by blast+
  show ?case
  proof (cases r1)
    case True
    then have "s' = s1" "ret" using "3.prems"(9) body by simp_all
    then show ?thesis
      using post_same[OF lev, of s' "Setup f # its" ret lo hi] k1 "3.prems"(6) by simp
  next
    case False
    then have ex: "exec_items its s1 = Inr (s', ret)" using "3.prems"(9) body by simp
    have lev1: "level s1 k" using lev k1 by (simp add: level_def)
    have p1: "path s1 k = path s k" using k1(3,5) by (rule path_cong)
    have r: "post s1 k its lo hi s' ret"
      using "3.IH"[OF lev1 _ _ ok _ _ _ _ ex] "3.prems"(2,3,5,7,8) rdy_its k1 p1 by simp
    show ?thesis
      using post_tail[OF r k1(3) k1(5), of lo "Setup f"] k1(2) by simp
  qed
next
  case (4 L d sub its)
  note lev = "4.prems"(1)
  let ?c = "test_current_line s"
  let ?X = "Context L d sub"
  have nip: "\<not> test_in_progress s" and idx: "ctx_stack_index s = int k"
    and kt: "int k \<le> ctx_stack_top s" and t20: "ctx_stack_top s < 20"
    and len: "length (ctx_stack s) = 20"
    using lev by (simp_all add: level_def)
  note srt = sorted_ctx[OF "4.prems"(2)]
  have oks: "bodies_ok sub" "bodies_ok its" using "4.prems"(4) by simp_all
  have dis: "d \<notin> set (descs_of sub)" "d \<notin> set (descs_of its)"
    "distinct (descs_of sub)" "distinct (descs_of its)"
    "set (descs_of sub) \<inter> set (descs_of its) = {}"
    using "4.prems"(3) by auto
  have root: "desc (ctx_stack s ! k) \<noteq> d" "desc (ctx_stack s ! k) \<notin> set (descs_of sub)"
    "desc (ctx_stack s ! k) \<notin> set (descs_of its)"
    using "4.prems"(5) by auto
  have L: "lo \<le> L" "L < hi" using "4.prems"(7,8) by simp_all
  have lo_sub: "\<forall>l \<in> set (lines_of sub). lo \<le> l"
    and lo_its: "\<forall>l \<in> set (lines_of its). lo \<le> l"
    and hi_sub: "\<forall>l \<in> set (lines_of sub). l < hi"
    and hi_its: "\<forall>l \<in> set (lines_of its). l < hi"
    using "4.prems"(7,8) by simp_all
  have "\<forall>a \<in> set (lines_of [?X]). \<forall>b \<in> set (lines_of its). a \<le> b"
    using srt(4,5) by simp
  then obtain m where m: "lo \<le> m" "\<forall>a \<in> set (lines_of [?X]). a \<le> m"
    "\<forall>b \<in> set (lines_of its). m \<le> b"
    using mid_bound[of "lines_of [?X]" "lines_of its" lo] lo_its by blast
  have disX: "\<forall>d' \<in> set (descs_of [?X]). d' \<notin> set (descs_of its)"
    using dis(2,5) by auto
  consider (replay) "path s k \<noteq> []" "hd (path s k) = d"
    | (other) "path s k \<noteq> []" "hd (path s k) \<noteq> d"
    | (passed) "path s k = []" "L < ?c"
    | (full) "path s k = []" "?c \<le> L" "20 \<le> ctx_stack_top s + 1"
    | (push) "path s k = []" "?c \<le> L" "ctx_stack_top s + 1 < 20"
    by fastforce
  then show ?case
  proof cases
    case replay
    have gt: "int k < ctx_stack_top s"
      using replay(1) kt path_nil_iff[of k s] by fastforce
    have pc: "path s k = desc (ctx_stack s ! Suc k) # path s (Suc k)"
      using gt by (rule path_cons)
    have dk: "desc (ctx_stack s ! Suc k) = d" using pc replay(2) by simp
    let ?s1 = "s\<lparr> ctx_stack_index := int k + 1 \<rparr>"
    have b: "cspec_context_begin L d s = (?s1, True)"
      using lev gt dk by (rule cbegin_replay)
    have lev1: "level ?s1 (Suc k)" using lev gt by (simp add: level_def)
    have p1: "path ?s1 (Suc k) = path s (Suc k)" by (rule path_cong) simp_all
    have rdy: "ready (test_current_line ?s1) sub (path ?s1 (Suc k))"
      using "4.prems"(6) pc dk p1 by simp
    obtain s2 ret2 where ex2: "exec_items sub ?s1 = Inr (s2, ret2)"
      using "4.prems"(9) b by (cases "exec_items sub ?s1") auto
    have r: "post ?s1 (Suc k) sub lo hi s2 ret2"
      using "4.IH"(1)[OF lev1 srt(1) dis(3) oks(1) _ rdy lo_sub hi_sub ex2] dk dis(1)
      by simp
    have w1: "weight (test_current_line ?s1) (d # path ?s1 (Suc k)) (?X # its)
               \<le> weight ?c (path s k) (?X # its)"
      using pc dk p1 by simp
    show ?thesis
      using ctx_finish[OF lev1 r ex2 _ _ _ _ w1 dis(2) L oks(2) b "4.prems"(9)] dk
      by simp
  next
    case other
    have hdk: "int k < ctx_stack_top s \<Longrightarrow> desc (ctx_stack s ! Suc k) = hd (path s k)"
      using path_cons[of k s] by simp
    have rd: "L < ?c" "ready ?c its (path s k)"
      using "4.prems"(6) other by (cases "path s k"; simp)+
    have ng: "\<not> (int k < ctx_stack_top s \<and> desc (ctx_stack s ! Suc k) = d)"
      using hdk other(2) by auto
    have b: "cspec_context_begin L d s = (s, False)"
      using lev ng root(1) rd(1) by (rule cbegin_skip)
    have ex: "exec_items its s = Inr (s', ret)" using "4.prems"(9) b by simp
    have r: "post s k its m hi s' ret"
      using "4.IH"(2)[OF lev srt(2) dis(4) oks(2) root(3) rd(2) m(3) hi_its ex] .
    have "hd (path s k) \<in> set (descs_of its)"
      using rd(2) other(1) ready_hd[of ?c its "hd (path s k)" "tl (path s k)"] by simp
    then have no: "path s k \<noteq> [] \<longrightarrow> hd (path s k) \<notin> set (descs_of [?X])"
      using other(2) dis(5) by auto
    show ?thesis
      using post_tail[OF r refl refl _ _ _ m(1,2) disX no] rd(1) by simp
  next
    case passed
    have top: "ctx_stack_top s = int k"
      using passed(1) kt path_nil_iff[of k s] by simp
    have b: "cspec_context_begin L d s = (s, False)"
      using cbegin_skip[OF lev _ root(1) passed(2)] top by simp
    have ex: "exec_items its s = Inr (s', ret)" using "4.prems"(9) b by simp
    have r: "post s k its m hi s' ret"
      using "4.IH"(2)[OF lev srt(2) dis(4) oks(2) root(3) _ m(3) hi_its ex] passed(1)
      by simp
    show ?thesis
      using post_tail[OF r refl refl _ _ _ m(1,2) disX] passed by simp
  next
    case full
    have top: "ctx_stack_top s = int k"
      using full(1) kt path_nil_iff[of k s] by simp
    obtain s1 where b: "cspec_context_begin L d s = (s1, False)" "level s1 k"
      "test_current_line s1 = L" "ctx_stack s1 = ctx_stack s"
      "ctx_stack_top s1 = ctx_stack_top s"
      using cbegin_full[OF lev _ root(1) full(2,3)] top by auto
    have ex: "exec_items its s1 = Inr (s', ret)" using "4.prems"(9) b(1) by simp
    have p1: "path s1 k = []" using b(5) top by (simp add: path_nil)
    have r: "post s1 k its m hi s' ret"
      using "4.IH"(2)[OF b(2) srt(2) dis(4) oks(2) _ _ m(3) hi_its ex] root(3) b(4) p1
      by simp
    have k19: "ctx_stack_top s = 19" "k = 19" using full(3) t20 top by simp_all
    show ?thesis
      using post_tail[OF r b(4,5) _ _ _ m(1,2) disX] full(1,2) b(3) L(2) k19 by simp
  next
    case push
    have top: "ctx_stack_top s = int k"
      using push(1) kt path_nil_iff[of k s] by simp
    have n: "nat (ctx_stack_top s + 1) = Suc k" using top by simp
    obtain s1 where b: "cspec_context_begin L d s = (s1, True)" "\<not> test_in_progress s1"
      "test_current_line s1 = L"
      "ctx_stack_top s1 = ctx_stack_top s + 1" "ctx_stack_index s1 = ctx_stack_top s + 1"
      "length (ctx_stack s1) = 20"
      "desc (ctx_stack s1 ! Suc k) = d"
      "\<forall>i. i \<noteq> Suc k \<longrightarrow> ctx_stack s1 ! i = ctx_stack s ! i"
      using cbegin_push[OF lev _ root(1) push(2,3)] top unfolding n by auto
    have lev1: "level s1 (Suc k)" using b top push(3) by (simp add: level_def)
    have p1: "path s1 (Suc k) = []" using b(4) top by (simp add: path_nil)
    have keep: "\<forall>i \<le> k. ctx_stack s1 ! i = ctx_stack s ! i" using b(8) by simp
    obtain s2 ret2 where ex2: "exec_items sub s1 = Inr (s2, ret2)"
      using "4.prems"(9) b(1) by (cases "exec_items sub s1") auto
    have r: "post s1 (Suc k) sub lo hi s2 ret2"
      using "4.IH"(1)[OF lev1 srt(1) dis(3) oks(1) _ _ lo_sub hi_sub ex2] b(7) dis(1) p1
      by simp
    have nm: "weight L [d] its = weight L [] its"
      using weight_nomatch[of "[d]" its L] dis(2) by simp
    have "weight L [d] (?X # its)
        = (2 ^ count_ctx sub + weight L [] sub) * 2 ^ count_ctx its + weight L [] its"
      using nm by simp
    also have "\<dots> \<le> (2 ^ count_ctx sub + weight ?c [] sub) * 2 ^ count_ctx its
        + weight ?c [] its"
      using weight_mono[OF push(2), of sub] weight_mono[OF push(2), of its]
      by (intro add_mono mult_right_mono) simp_all
    also have "\<dots> = weight ?c (path s k) (?X # its)" using push(1,2) by simp
    finally have w1: "weight (test_current_line s1) (d # path s1 (Suc k)) (?X # its)
               \<le> weight ?c (path s k) (?X # its)"
      using b(3) p1 by simp
    show ?thesis
      using ctx_finish[OF lev1 r ex2 keep b(7) _ _ w1 dis(2) L oks(2) b(1) "4.prems"(9)]
        b(3) push(2) L(2) by simp
  qed
qed

lemma pass_step:
  assumes wf: "well_formed body" and inv: "pass_inv body H s"
    and hi: "\<forall>l \<in> set (lines_of body). l < H"
    and rp: "run_pass body s = Inr r" and en: "cspec_end r = Inr (t, b)"
  shows "pass_inv body H t"
    and "\<not> (\<not> test_in_progress r \<and> test_current_line (before_pass s) = test_current_line r) \<Longrightarrow>
      (pass_measure body H t, pass_measure body H s) \<in> less_than <*lex*> less_than"
proof -
  let ?s0 = "(before_pass s)\<lparr> test_in_function := True \<rparr>"
  obtain s1 ret where ex: "exec_items body ?s0 = Inr (s1, ret)"
    using rp by (cases "exec_items body ?s0") (auto simp: run_pass_def)
  have r: "r = s1\<lparr> test_in_function := False \<rparr>"
    using rp ex by (simp add: run_pass_def)
  have i: "\<not> test_in_progress s" "0 \<le> ctx_stack_top s" "ctx_stack_top s < 20"
    "length (ctx_stack s) = 20" "desc (ctx_stack s ! 0) = root_desc"
    "ready (test_current_line s) body (path s 0)" "test_current_line s \<le> H"
    using inv by (simp_all add: pass_inv_def)
  have w: "sorted (lines_of body)" "distinct (descs_of body)"
    "root_desc \<notin> set (descs_of body)" "bodies_ok body"
    using wf by (simp_all add: well_formed_def)
  have c0: "test_current_line ?s0 = test_current_line s" "ctx_stack ?s0 = ctx_stack s"
    "ctx_stack_top ?s0 = ctx_stack_top s"
    by (simp_all add: before_pass_control)
  have p0: "path ?s0 0 = path s 0" using c0(2,3) by (rule path_cong)
  have lev: "level ?s0 0"
    using i by (simp add: level_def before_pass_control)
  let ?lo = "Min (insert 0 (set (lines_of body)))"
  have lo: "\<forall>l \<in> set (lines_of body). ?lo \<le> l" by simp
  have "post ?s0 0 body ?lo H s1 ret"
    using exec_post[OF lev w(1,2,4) _ _ lo hi ex] w(3) i(5,6) c0 p0 by simp
  then have q: "0 \<le> ctx_stack_top s1" "ctx_stack_top s1 < 20" "length (ctx_stack s1) = 20"
    "ctx_stack s1 ! 0 = ctx_stack s ! 0"
    "ready (test_current_line s1) body (path s1 0)"
    "weight (test_current_line s1) (path s1 0) body
          \<le> weight (test_current_line s) (path s 0) body"
    "test_current_line s1 < test_current_line s \<longrightarrow>
          weight (test_current_line s1) (path s1 0) body
            < weight (test_current_line s) (path s 0) body"
    "test_current_line s1 \<le> H"
    "test_in_progress s1 \<longrightarrow> test_current_line s < test_current_line s1"
    using i(7) unfolding post_def c0 p0 by simp_all
  have ct: "test_current_line t = test_current_line s1" "ctx_stack t = ctx_stack s1"
    "ctx_stack_top t = ctx_stack_top s1"
    using ctx_fields_end(1,2,4)[OF en] by (simp_all add: r)
  have nt: "\<not> test_in_progress t" using ctx_fields_end(5)[OF en] .
  have pt: "path t 0 = path s1 0" using ct(2,3) by (rule path_cong)
  show "pass_inv body H t"
    using q i(5) nt unfolding pass_inv_def ct(1-3) pt by simp
  assume "\<not> (\<not> test_in_progress r \<and> test_current_line (before_pass s) = test_current_line r)"
  then have "test_in_progress s1 \<or> test_current_line s1 \<noteq> test_current_line s"
    by (auto simp: r before_pass_control)
  then consider "test_current_line s1 < test_current_line s"
    | "test_current_line s < test_current_line s1"
    using q(9) by fastforce
  then show "(pass_measure body H t, pass_measure body H s) \<in> less_than <*lex*> less_than"
  proof cases
    case 1
    then show ?thesis using q(7) unfolding pass_measure_def ct pt by simp
  next
    case 2
    then have "nat (H - test_current_line s1) < nat (H - test_current_line s)"
      using q(8) by simp
    then show ?thesis using q(6) unfolding pass_measure_def ct pt by auto
  qed
qed

lemma passes_terminate:
  assumes wf: "well_formed body" and hi: "\<forall>l \<in> set (lines_of body). l < H"
    and inv: "pass_inv body H s"
  shows "(\<exists>f. passes body s = Some (Inl f))
     \<or> (\<exists>t r. pass_inv body H t \<and> run_pass body t = Inr r \<and> \<not> test_in_progress r
            \<and> test_current_line (before_pass t) = test_current_line r
            \<and> passes body s = Some (Inr r))"
proof -
  have wfr: "wf (inv_image (less_than <*lex*> less_than) (pass_measure body H))"
    by (intro wf_inv_image wf_lex_prod wf_less_than)
  show ?thesis using inv
  proof (induction s rule: wf_induct_rule[OF wfr])
    case (1 s)
    show ?case
    proof (cases "run_pass body s")
      case (Inl f)
      have "passes body s = Some (Inl f)"
        by (subst passes.simps) (simp add: Inl)
      then show ?thesis by blast
    next
      case (Inr r)
      show ?thesis
      proof (cases "\<not> test_in_progress r
          \<and> test_current_line (before_pass s) = test_current_line r")
        case True
        have "passes body s = Some (Inr r)"
          by (subst passes.simps) (simp add: Inr True)
        then show ?thesis using "1.prems" Inr True by blast
      next
        case False
        show ?thesis
        proof (cases "cspec_end r")
          case (Inl f)
          have "passes body s = Some (Inl f)"
            using False by (subst passes.simps) (auto simp: Inr Inl)
          then show ?thesis by blast
        next
          case en: (Inr x)
          obtain t b where x: "x = (t, b)" by (cases x)
          note en' = en[unfolded x]
          have e: "passes body s = passes body t"
            using False by (subst passes.simps) (auto simp: Inr en')
          have inv: "pass_inv body H t"
            using pass_step(1)[OF wf "1.prems" hi Inr en'] .
          have "(t, s) \<in> inv_image (less_than <*lex*> less_than) (pass_measure body H)"
            using pass_step(2)[OF wf "1.prems" hi Inr en' False] by simp
          from "1.IH"[OF this inv] show ?thesis unfolding e .
        qed
      qed
    qed
  qed
qed

text \<open>
  For every well-formed test group, run from a state with only the root context on the
  stack and no test in progress, the loop of \<^verbatim>\<open>process_function\<close> comes to an end: the run
  stops on a fault, or there is a pass that ends with no test in progress and the line it
  started with, and the function returns the state of that pass with the stack of
  contexts cleared.
\<close>

lemma process_function_returns:
  assumes "well_formed body" "ctx_start s" "\<not> test_in_progress s"
  shows "(\<exists>f. process_function body s = Some (Inl f))
     \<or> (\<exists>t r. run_pass body t = Inr r \<and> \<not> test_in_progress r
            \<and> test_current_line (before_pass t) = test_current_line r
            \<and> process_function body s = Some (Inr (context_clear_stack r)))"
proof -
  let ?H = "Max (insert 0 (set (lines_of body))) + 1"
  have hi: "\<forall>l \<in> set (lines_of body). l < ?H"
  proof
    fix l assume "l \<in> set (lines_of body)"
    then have "l \<le> Max (insert 0 (set (lines_of body)))" by simp
    then show "l < ?H" by simp
  qed
  have "0 \<le> Max (insert 0 (set (lines_of body)))" by simp
  then have h0: "0 \<le> ?H" by simp
  have p: "path (before_fn s) 0 = []"
    using assms(2) by (simp add: path_nil before_fn_def ctx_start_def)
  have inv: "pass_inv body ?H (before_fn s)"
    using assms(2,3) h0 unfolding pass_inv_def p
    by (simp add: before_fn_def ctx_start_def cspec_ctx_stack_size_max_def root_context_def)
  from passes_terminate[OF assms(1) hi inv]
  consider (fault) f where "passes body (before_fn s) = Some (Inl f)"
    | (fixed) t r where "run_pass body t = Inr r" "\<not> test_in_progress r"
        "test_current_line (before_pass t) = test_current_line r"
        "passes body (before_fn s) = Some (Inr r)"
    by blast
  then show ?thesis
  proof cases
    case fault
    then have "process_function body s = Some (Inl f)"
      by (simp add: process_function_def)
    then show ?thesis by blast
  next
    case fixed
    have "process_function body s = Some (Inr (context_clear_stack r))"
      using fixed(4) by (simp add: process_function_def)
    then show ?thesis using fixed(1-3) by blast
  qed
qed

subsection \<open>A test that writes past its block, and the run of its group\<close>

lemma final_checks_unwritten:
  assumes "records_in_use s = Some r # None # es"
    and "in_array (block r) (memory_size_fence * 2 + size_r r)" "\<not> is_free r"
  shows "memory_final_checks s = Inl Unwritten_entry"
proof -
  obtain ok where "memory_check_fence (memory_arr s) r = Inr ok"
    using check_fence_in_array[OF assms(2)] by blast
  then obtain s1 where "check_record r s = Inr s1"
    using assms(3) by (simp add: check_record_def Let_def)
  then show ?thesis
    by (simp add: memory_final_checks_def assms(1))
qed

lemma overrun_run:
  assumes "memory_records s = Some (replicate 16 None)" "memory_records_capacity s = 16"
    and "memory_records_size s = 0" "memory_ptr s = 0"
    and "test_in_function s" "test_in_progress s"
    and "memory_malloc_fail s = M_NORMAL" "\<not> memory_expect_error s"
  shows "\<exists>t. overrun s = Inr (t, False)
     \<and> records_in_use t = [Some \<lparr> size_r = 5, block = 16, is_free = False \<rparr>, None]
     \<and> events t = events s @ [Error_mem Malloc_preceding_fence True]
     \<and> test_in_progress t \<and> test_in_function t
     \<and> test_failed t = test_failed s \<and> param_memory_test t = param_memory_test s
     \<and> test_current_line t = test_current_line s"
proof -
  let ?r = "\<lparr> size_r = 5, block = 16, is_free = False \<rparr>"
  define m1 where "m1 = cspec_memset (cspec_memset (cspec_memset (memory_arr s) 16 chr_b 7)
                  23 chr_N 5) 28 chr_e 7"
  define s1 where "s1 = s\<lparr> memory_count_mallocs := memory_count_mallocs s + 1,
            memory_records_size := 1,
            memory_records := Some ((replicate 16 None)[0 := Some ?r]),
            memory_arr := m1, memory_ptr := 19 \<rparr>"
  have mal: "cspec_malloc s 5 = Inr (s1, Some 23)"
    using malloc_success[OF assms(1) assms(5), of 5] assms
    by (simp add: preceding_fence_ok_def s1_def m1_def)
  define s2 where "s2 = s1\<lparr> memory_arr := m1(28 := 0) \<rparr>"
  have st: "store_byte s1 (23 + 5) 0 = Inr s2"
    by (simp add: store_byte_def in_array_def sizes s2_def s1_def)
  have f2: "memory_records s2 = Some ((replicate 16 None)[0 := Some ?r])"
    "test_in_function s2" "memory_malloc_fail s2 = M_NORMAL" "memory_ptr s2 = 19"
    "memory_records_size s2 = 1" "memory_records_capacity s2 = 16"
    "memory_arr s2 28 = 0" "test_in_progress s2" "\<not> memory_expect_error s2"
    "events s2 = events s"
    using assms by (simp_all add: s2_def s1_def)
  define s3 where "s3 = cspec_error_mem Malloc_preceding_fence
           (s2\<lparr> memory_count_mallocs := memory_count_mallocs s2 + 1,
               memory_records_size := memory_records_size s2 + 1 \<rparr>)"
  have te: "table_entry ((replicate 16 None)[0 := Some ?r]) (memory_records_size s2 - 1) \<noteq> None"
    by (simp add: f2 table_entry_def)
  have mal2: "cspec_malloc s2 4 = Inr (s3, None)"
    unfolding s3_def
    by (rule malloc_fence_broken[OF f2(1) f2(2) _ _ _ _ _ _ _ te])
      (simp_all add: f2 chars)
  have run: "overrun s = Inr (s3, False)"
    using st by (simp add: overrun_def mal mal2)
  have sz: "memory_records_size s3 = 2"
    "the_table s3 = (replicate 16 None)[0 := Some ?r]"
    by (simp_all add: s3_def cspec_error_mem_def f2 the_table_def)
  have use: "records_in_use s3 = [Some ?r, None]"
    by (simp add: records_in_use_def sz table_entry_def numeral_eq_Suc)
  have "events s3 = events s @ [Error_mem Malloc_preceding_fence True]"
    "test_in_progress s3" "test_in_function s3"
    "test_failed s3 = test_failed s" "param_memory_test s3 = param_memory_test s"
    "test_current_line s3 = test_current_line s"
    using f2 by (simp_all add: s3_def cspec_error_mem_def) (simp_all add: s2_def s1_def)
  then show ?thesis using run use by blast
qed

text \<open>
  Claim C1 against the code. The group \<open>overrun_group\<close> is well formed: one test, on line
  4, whose block allocates five bytes, writes one byte past them and allocates again. In
  the first pass \<^verbatim>\<open>cspec_malloc\<close> reports the broken fence for the second request, after
  it has counted a table entry that it then does not write. The pass ends with the test
  in progress, so that \<^verbatim>\<open>process_function\<close> calls \<^verbatim>\<open>_cspec_end\<close>, whose final checks go
  through the entries counted and read the one never written. The run stops there: no
  pass ends with the flag false and the line unchanged. (Lemma \<open>process_function_returns\<close>
  has the general statement: the run of a well-formed group stops on a fault or at such a
  pass.)
\<close>

theorem C1_runner_stops_after_overrun:
  "well_formed overrun_group \<and> ctx_start initial_state \<and> \<not> test_in_progress initial_state
   \<and> (\<exists>r. run_pass overrun_group (before_fn initial_state) = Inr r
         \<and> test_in_progress r
         \<and> events r = [Error_mem Malloc_preceding_fence True]
         \<and> records_in_use r = [Some \<lparr> size_r = 5, block = 16, is_free = False \<rparr>, None]
         \<and> cspec_end r = Inl Unwritten_entry)
   \<and> process_function overrun_group initial_state = Some (Inl Unwritten_entry)"
proof -
  let ?s0 = "(before_pass (before_fn initial_state))\<lparr> test_in_function := True \<rparr>"
  have b0: "before_fn initial_state = initial_state"
    by (simp add: before_fn_def initial_state_def)
  define t0 where "t0 = test_state\<lparr> test_current_line := 4 \<rparr>"
  have beg: "cspec_begin 4 ?s0 = (t0, True)"
    unfolding b0
    by (simp add: cspec_begin_def Let_def before_pass_control t0_def test_state_def)
      (simp add: initial_state_def)
  have f0: "memory_records t0 = Some (replicate 16 None)" "memory_records_capacity t0 = 16"
    "memory_records_size t0 = 0" "memory_ptr t0 = 0"
    "test_in_function t0" "test_in_progress t0"
    "memory_malloc_fail t0 = M_NORMAL" "\<not> memory_expect_error t0"
    "events t0 = []" "\<not> test_failed t0" "param_memory_test t0" "test_current_line t0 = 4"
    using test_state_facts test_state_table by (simp_all add: t0_def)
  from overrun_run[OF f0(1-8)] obtain t where
    t: "overrun t0 = Inr (t, False)"
    "records_in_use t = [Some \<lparr> size_r = 5, block = 16, is_free = False \<rparr>, None]"
    "events t = events t0 @ [Error_mem Malloc_preceding_fence True]"
    "test_in_progress t" "test_in_function t"
    "test_failed t = test_failed t0" "param_memory_test t = param_memory_test t0"
    "test_current_line t = test_current_line t0"
    by blast
  define r where "r = t\<lparr> test_in_function := False \<rparr>"
  have run: "run_pass overrun_group (before_fn initial_state) = Inr r"
    by (simp add: run_pass_def overrun_group_def beg t(1) r_def)
  have use: "records_in_use r = [Some \<lparr> size_r = 5, block = 16, is_free = False \<rparr>, None]"
    using t(2) by (simp add: r_def records_in_use_def the_table_def)
  have fr: "test_in_progress r" "\<not> test_failed r" "param_memory_test r"
    "events r = [Error_mem Malloc_preceding_fence True]"
    using t f0 by (simp_all add: r_def)
  have "memory_final_checks r = Inl Unwritten_entry"
    by (rule final_checks_unwritten[OF use]) (simp_all add: in_array_def sizes)
  then have "end_checks r = Inl Unwritten_entry"
    using fr by (simp add: end_checks_def)
  then have e: "cspec_end r = Inl Unwritten_entry"
    using fr(1) by (rule cspec_end_fault[rotated])
  have "passes overrun_group (before_fn initial_state) = Some (Inl Unwritten_entry)"
    by (subst passes.simps) (simp add: run fr e)
  then have p: "process_function overrun_group initial_state = Some (Inl Unwritten_entry)"
    by (simp add: process_function_def)
  have "\<not> test_in_progress initial_state" by (simp add: initial_state_def)
  then show ?thesis
    using overrun_well_formed initial_ctx_start run fr use e p by blast
qed

theorem C1_runner_stops_after_overrun_witness:
  "process_function overrun_group initial_state = Some (Inl Unwritten_entry)
   \<and> well_formed overrun_group"
  using C1_runner_stops_after_overrun by simp

end
